theory Spec2Isabelle
  imports Main "HOL-Library.List_Lexorder" "HOL-Library.Product_Lexorder"
begin

section \<open>Python strings\<close>

text \<open>
  A Python \<open>str\<close> is a sequence of Unicode code points, and \<open>len\<close> counts code points.
  A code point is a natural number here; ASCII text is written as an Isabelle string
  literal and converted with \<open>ascii\<close>.
\<close>

type_synonym pystr = "nat list"

definition ascii :: "string \<Rightarrow> pystr" where
  "ascii s = map of_char s"

definition LF :: nat where
  "LF = 10"

definition CR :: nat where
  "CR = 13"

text \<open>
  The line boundaries of \<open>str.splitlines\<close>: LF, VT, FF, CR, FS, GS, RS, NEL (U+0085),
  LINE SEPARATOR (U+2028) and PARAGRAPH SEPARATOR (U+2029).
\<close>

definition is_linebreak :: "nat \<Rightarrow> bool" where
  "is_linebreak c = (c \<in> {10, 11, 12, 13, 28, 29, 30, 133, 8232, 8233})"

text \<open>The code points for which \<open>str.isspace\<close> holds: what \<open>strip()\<close> and \<open>rstrip()\<close> remove.\<close>

definition is_space :: "nat \<Rightarrow> bool" where
  "is_space c = (c \<in> {9, 10, 11, 12, 13, 28, 29, 30, 31, 32, 133, 160, 5760,
     8192, 8193, 8194, 8195, 8196, 8197, 8198, 8199, 8200, 8201, 8202,
     8232, 8233, 8239, 8287, 12288})"

text \<open>
  \<open>str.splitlines()\<close>: the text is cut at every line boundary, CR LF counting as one
  boundary; the boundaries are dropped, and a boundary at the very end of the text opens
  no further (empty) line.
\<close>

fun splitlines :: "pystr \<Rightarrow> pystr list" where
  "splitlines [] = []"
| "splitlines (c # cs) =
     (if is_linebreak c then
        [] # splitlines (if c = CR \<and> cs \<noteq> [] \<and> hd cs = LF then tl cs else cs)
      else (case splitlines cs of [] \<Rightarrow> [[c]] | l # ls \<Rightarrow> (c # l) # ls))"

text \<open>\<open>sep.join(parts)\<close>.\<close>

fun join :: "pystr \<Rightarrow> pystr list \<Rightarrow> pystr" where
  "join sep [] = []"
| "join sep [l] = l"
| "join sep (l # m # ls) = l @ sep @ join sep (m # ls)"

text \<open>\<open>s.rstrip()\<close>, \<open>s.strip()\<close> and \<open>s.strip("\n")\<close>.\<close>

definition rstrip :: "pystr \<Rightarrow> pystr" where
  "rstrip s = rev (dropWhile is_space (rev s))"

definition strip :: "pystr \<Rightarrow> pystr" where
  "strip s = rstrip (dropWhile is_space s)"

definition strip_nl :: "pystr \<Rightarrow> pystr" where
  "strip_nl s = rev (dropWhile (\<lambda>c. c = LF) (rev (dropWhile (\<lambda>c. c = LF) s)))"

text \<open>
  The slice \<open>xs[:k]\<close>: a negative \<open>k\<close> counts from the end, and an index out of
  range is clipped, never an error.
\<close>

definition slice_to :: "'a list \<Rightarrow> int \<Rightarrow> 'a list" where
  "slice_to xs k = (if k < 0 then take (nat (int (length xs) + k)) xs else take (nat k) xs)"

section \<open>Text Truncator\<close>

text \<open>The marker line: U+2026 (horizontal ellipsis), a space, and \<open>(truncated)\<close>.\<close>

definition marker :: pystr where
  "marker = 8230 # ascii '' (truncated)''"

text \<open>
  \<open>truncate\<close> of docs_pack.py; \<open>truncate_block\<close> of codebase_snapshot.py has the same body.
  The limits are Python integers, so they may be negative.
\<close>

definition truncate :: "pystr \<Rightarrow> int \<Rightarrow> int \<Rightarrow> pystr" where
  "truncate text max_lines max_chars =
     (let lines = splitlines text;
          lines = (if int (length lines) > max_lines
                   then slice_to lines max_lines @ [marker] else lines);
          out = join [LF] lines
      in if int (length out) > max_chars
         then rstrip (slice_to out (max_chars - 20)) @ [LF] @ marker
         else out)"

definition truncate_block :: "pystr \<Rightarrow> int \<Rightarrow> int \<Rightarrow> pystr" where
  "truncate_block text max_lines max_chars =
     (let lines = splitlines text;
          lines = (if int (length lines) > max_lines
                   then slice_to lines max_lines @ [marker] else lines);
          out = join [LF] lines
      in if int (length out) > max_chars
         then rstrip (slice_to out (max_chars - 20)) @ [LF] @ marker
         else out)"

text \<open>
  The two stages of \<open>truncate\<close>, named for the proofs: the line cap and the character cap.
\<close>

definition cap_lines :: "pystr list \<Rightarrow> int \<Rightarrow> pystr list" where
  "cap_lines ls max_lines =
     (if int (length ls) > max_lines then slice_to ls max_lines @ [marker] else ls)"

definition cap_chars :: "pystr \<Rightarrow> int \<Rightarrow> pystr" where
  "cap_chars out max_chars =
     (if int (length out) > max_chars
      then rstrip (slice_to out (max_chars - 20)) @ [LF] @ marker else out)"

text \<open>
  Two predicates on texts used by the proofs: a line without any line boundary, and a text
  whose only line boundaries are LF.
\<close>

definition lf_only :: "pystr \<Rightarrow> bool" where
  "lf_only s = (\<forall>c \<in> set s. is_linebreak c \<longrightarrow> c = LF)"

definition no_break :: "pystr \<Rightarrow> bool" where
  "no_break l = (\<forall>c \<in> set l. \<not> is_linebreak c)"

section \<open>Documentation Extractor\<close>

text \<open>
  The extractor calls three functions of Python's standard library: \<open>ast.parse\<close>,
  \<open>tokenize.generate_tokens\<close> and \<open>ast.literal_eval\<close>. They are parameters of the model
  (the fields of \<open>pylib\<close>), so every statement below holds whatever they compute. What is
  fixed is their interface: each returns a value or raises an exception, and the token
  generator is lazy, so it yields tokens one by one and may raise in the middle.
\<close>

datatype exn =
  SyntaxError | IndentationError | TokenError | ValueError | PermissionError
  | NotADirectoryError | OtherException

datatype pyvalue = PyStr pystr | PyBytes "nat list" | PyOther

text \<open>
  The part of the syntax tree of a module that \<open>ast.get_docstring\<close> reads: the body is a list
  of statements, an expression statement holds an expression, and a literal is a
  \<open>Constant\<close> with its value.
\<close>

datatype expr = Constant pyvalue | OtherExpr

datatype stmt = Expr expr | OtherStmt

datatype tok_type =
  ENDMARKER | NAME | NUMBER | STRING | NEWLINE | INDENT | DEDENT | OP | COMMENT | NL
  | ERRORTOKEN | ENCODING

datatype token = Token (tok_type: tok_type) (tok_string: pystr)

text \<open>
  A token generator: it is exhausted, or yields a token and goes on, or raises.
\<close>

datatype tokgen = Done | Yield token tokgen | Raise exn

datatype pylib = Pylib
  (ast_parse: "pystr \<Rightarrow> exn + stmt list")
  (generate_tokens: "pystr \<Rightarrow> exn + tokgen")
  (literal_eval: "pystr \<Rightarrow> exn + pyvalue")

text \<open>
  \<open>ast.get_docstring(module, clean=False)\<close>: the value of the first statement when it is
  an expression statement holding a string constant, \<open>None\<close> otherwise.
\<close>

fun get_docstring :: "stmt list \<Rightarrow> pystr option" where
  "get_docstring (Expr (Constant (PyStr text)) # rest) = Some text"
| "get_docstring body = None"

text \<open>
  The result of the extractor: \<open>Inl e\<close> when the exception \<open>e\<close> reaches the caller,
  \<open>Inr None\<close> for \<open>Missing\<close> and \<open>Inr (Some text)\<close> for \<open>Found(text)\<close>.

  \<open>scan_tokens\<close> is the \<open>for tok in tokgen\<close> loop of
  \<open>extract_module_docstring_fallback\<close>, with the final \<open>return None\<close> for the
  exhausted generator. The loop stands outside the \<open>try\<close> of the function, so an
  exception of the generator leaves the function.
\<close>

definition is_trivia :: "tok_type \<Rightarrow> bool" where
  "is_trivia ty = (ty \<in> {ENCODING, NL, NEWLINE, COMMENT, INDENT, DEDENT})"

fun scan_tokens :: "(pystr \<Rightarrow> exn + pyvalue) \<Rightarrow> tokgen \<Rightarrow> exn + pystr option" where
  "scan_tokens lit Done = Inr None"
| "scan_tokens lit (Raise e) = Inl e"
| "scan_tokens lit (Yield tok rest) =
     (if is_trivia (tok_type tok) then scan_tokens lit rest
      else if tok_type tok = STRING then
        (case lit (tok_string tok) of
           Inr val \<Rightarrow>
             (case val of
                PyStr v \<Rightarrow> (let v = strip_nl v in Inr (if strip v \<noteq> [] then Some v else None))
              | _ \<Rightarrow> Inr None)
         | Inl e \<Rightarrow>
             (let raw = strip_nl (tok_string tok)
              in Inr (if strip raw \<noteq> [] then Some raw else None)))
      else Inr None)"

definition extract_module_docstring_fallback :: "pylib \<Rightarrow> pystr \<Rightarrow> exn + pystr option" where
  "extract_module_docstring_fallback py source =
     (case generate_tokens py source of
        Inl e \<Rightarrow> Inr None
      | Inr tokgen \<Rightarrow> scan_tokens (literal_eval py) tokgen)"

text \<open>
  \<open>extract_module_docstring\<close> of docs_pack.py. The one of codebase_snapshot.py reads the
  file at \<open>path\<close> first and then has the same body. Both handlers, \<open>except SyntaxError\<close>
  and \<open>except Exception\<close>, call the fallback.
\<close>

definition extract_module_docstring :: "pylib \<Rightarrow> pystr \<Rightarrow> exn + pystr option" where
  "extract_module_docstring py source =
     (case ast_parse py source of
        Inr module \<Rightarrow>
          (case get_docstring module of
             None \<Rightarrow> Inr None
           | Some doc \<Rightarrow> (let doc = strip_nl doc in Inr (if strip doc \<noteq> [] then Some doc else None)))
      | Inl e \<Rightarrow>
          (if e = SyntaxError \<or> e = IndentationError
           then extract_module_docstring_fallback py source
           else extract_module_docstring_fallback py source))"

text \<open>A token generator that yields the given tokens first and then goes on as \<open>g\<close>.\<close>

fun yield_all :: "token list \<Rightarrow> tokgen \<Rightarrow> tokgen" where
  "yield_all [] g = g"
| "yield_all (t # ts) g = Yield t (yield_all ts g)"

text \<open>
  The source text made of three double quotes followed by \<open>abc\<close>, an unterminated
  triple-quoted string, and what the library of CPython does on it: \<open>ast.parse\<close>
  raises \<open>SyntaxError\<close>, \<open>generate_tokens\<close> returns a generator that raises
  \<open>TokenError\<close> (EOF in multi-line string) when asked for its first token;
  \<open>literal_eval\<close> is not reached.
\<close>

definition unterminated :: pystr where
  "unterminated = [34, 34, 34] @ ascii ''abc''"

definition cpython_unterminated :: pylib where
  "cpython_unterminated =
     Pylib (\<lambda>s. Inl SyntaxError) (\<lambda>s. Inr (Raise TokenError)) (\<lambda>s. Inl SyntaxError)"

section \<open>Exclusion Filter\<close>

definition SLASH :: nat where
  "SLASH = 47"

definition STAR :: nat where
  "STAR = 42"

definition QUESTION :: nat where
  "QUESTION = 63"

text \<open>\<open>s.split(sep)\<close> for a separator of one character: the pieces between the separators.\<close>

fun split_on :: "nat \<Rightarrow> pystr \<Rightarrow> pystr list" where
  "split_on sep [] = [[]]"
| "split_on sep (c # cs) =
     (if c = sep then [] # split_on sep cs
      else (case split_on sep cs of [] \<Rightarrow> [[c]] | l # ls \<Rightarrow> (c # l) # ls))"

text \<open>
  \<open>pathlib\<close> matches one path segment against one pattern segment with
  \<open>fnmatch.fnmatchcase(name, pat)\<close>, a function of the standard library. It is a parameter
  (\<open>fnmatchcase\<close>) of every function below that matches, so the general statements hold
  for the library's matcher with all of its wildcards, bracket expressions included.

  The examples need a matcher that computes. \<open>wildcard_match\<close> is \<open>fnmatchcase\<close> on the
  patterns without an opening bracket: \<open>*\<close> stands for any run of characters, \<open>?\<close> for
  any single character, every other character for itself, and the whole name must match.
  It is used on such patterns only.
\<close>

fun wildcard_match :: "pystr \<Rightarrow> pystr \<Rightarrow> bool" where
  "wildcard_match [] [] = True"
| "wildcard_match (c # cs) [] = False"
| "wildcard_match [] (p # ps) = (p = STAR \<and> wildcard_match [] ps)"
| "wildcard_match (c # cs) (p # ps) =
     (if p = STAR then wildcard_match (c # cs) ps \<or> wildcard_match cs (p # ps)
      else (p = QUESTION \<or> p = c) \<and> wildcard_match cs ps)"

text \<open>
  \<open>pathlib\<close> on POSIX. \<open>splitroot\<close> takes the leading slashes of a path string as its
  root (exactly two slashes are a root of their own); \<open>parse_parts\<close> cuts the rest at
  the slashes and drops the empty segments and the segments \<open>.\<close>. It returns the root and
  the parts, where the root, if there is one, is the first part.
\<close>

definition splitroot :: "pystr \<Rightarrow> pystr \<times> pystr" where
  "splitroot part =
     (if part \<noteq> [] \<and> hd part = SLASH then
        (let stripped_part = dropWhile (\<lambda>c. c = SLASH) part
         in if length part - length stripped_part = 2 then ([SLASH, SLASH], stripped_part)
            else ([SLASH], stripped_part))
      else ([], part))"

definition parse_parts :: "pystr \<Rightarrow> pystr \<times> pystr list" where
  "parse_parts s =
     (let (root, rel) = splitroot s;
          parsed = filter (\<lambda>x. x \<noteq> [] \<and> x \<noteq> ascii ''.'') (split_on SLASH rel)
      in (root, (if root \<noteq> [] then [root] else []) @ parsed))"

text \<open>
  \<open>str(path)\<close> of a relative path, given by its parts: the parts joined by slashes, and
  \<open>.\<close> for the empty path.
\<close>

definition path_str :: "pystr list \<Rightarrow> pystr" where
  "path_str parts = (if parts = [] then ascii ''.'' else join [SLASH] parts)"

text \<open>
  \<open>PurePath.match(pattern)\<close>, for the path written \<open>path\<close>: an empty pattern raises
  \<open>ValueError\<close>; a pattern with a root must match a path with the same root part for
  part; a relative pattern is matched from the right, its parts against the last parts of
  the path.
\<close>

definition path_match :: "(pystr \<Rightarrow> pystr \<Rightarrow> bool) \<Rightarrow> pystr \<Rightarrow> pystr \<Rightarrow> exn + bool" where
  "path_match fnmatchcase path path_pattern =
     (let (root, pat_parts) = parse_parts path_pattern;
          (self_root, parts) = parse_parts path
      in if pat_parts = [] then Inl ValueError
         else if root \<noteq> [] \<and> root \<noteq> self_root then Inr False
         else if root \<noteq> [] \<and> length pat_parts \<noteq> length parts then Inr False
         else if root = [] \<and> length pat_parts > length parts then Inr False
         else Inr (list_all (\<lambda>(part, pat). fnmatchcase part pat)
                     (zip (rev parts) (rev (if root \<noteq> [] then tl pat_parts else pat_parts)))))"

text \<open>
  \<open>_matches_any_glob\<close>: \<open>any(p.match(g) for g in globs)\<close> stops at the first pattern that
  matches, and an exception of \<open>match\<close> leaves it.
\<close>

fun matches_any_glob :: "(pystr \<Rightarrow> pystr \<Rightarrow> bool) \<Rightarrow> pystr \<Rightarrow> pystr list \<Rightarrow> exn + bool" where
  "matches_any_glob fnmatchcase rel_path [] = Inr False"
| "matches_any_glob fnmatchcase rel_path (g # globs) =
     (case path_match fnmatchcase rel_path g of
        Inl e \<Rightarrow> Inl e
      | Inr m \<Rightarrow> if m then Inr True else matches_any_glob fnmatchcase rel_path globs)"

text \<open>
  \<open>_should_skip\<close>; the relative path is given by its parts (\<open>rel_path.parts\<close>).
\<close>

definition should_skip ::
  "(pystr \<Rightarrow> pystr \<Rightarrow> bool) \<Rightarrow> pystr list \<Rightarrow> bool \<Rightarrow> pystr set \<Rightarrow> pystr list \<Rightarrow> exn + bool" where
  "should_skip fnmatchcase rel_path is_dir exclude_dirs exclude_globs =
     (if \<exists>part \<in> set rel_path. part \<in> exclude_dirs then Inr True
      else if \<not> is_dir then
        (case matches_any_glob fnmatchcase (path_str rel_path) exclude_globs of
           Inl e \<Rightarrow> Inl e
         | Inr m \<Rightarrow> if m then Inr True else Inr False)
      else Inr False)"



section \<open>Tree Renderer\<close>

text \<open>
  A directory state, as far as the walk reads it: a regular file; an entry that is neither
  a file nor a directory (a socket, a dangling link); an entry that may not be examined
  (\<open>stat\<close> fails with EACCES, as for the entries of a directory without search
  permission); a directory whose listing is denied; and a directory with its entries in
  the order in which \<open>iterdir\<close> returns them. The depth bound ends every walk, so a finite
  tree stands for any directory state.
\<close>

datatype fsnode = File | Other | NoAccess | Denied | Dir "(pystr \<times> fsnode) list"

text \<open>
  \<open>Path.is_dir()\<close> and \<open>Path.is_file()\<close> answer \<open>False\<close> for an entry that does not
  exist or is of another kind, and raise \<open>PermissionError\<close> when the entry may not be
  examined.
\<close>

fun is_dir :: "fsnode \<Rightarrow> exn + bool" where
  "is_dir (Dir entries) = Inr True"
| "is_dir Denied = Inr True"
| "is_dir File = Inr False"
| "is_dir Other = Inr False"
| "is_dir NoAccess = Inl PermissionError"

fun is_file :: "fsnode \<Rightarrow> exn + bool" where
  "is_file File = Inr True"
| "is_file (Dir entries) = Inr False"
| "is_file Denied = Inr False"
| "is_file Other = Inr False"
| "is_file NoAccess = Inl PermissionError"

text \<open>
  \<open>iterdir\<close> raises \<open>PermissionError\<close> on a directory that may not be listed and
  \<open>NotADirectoryError\<close> on anything that is not a directory.
\<close>

fun iterdir :: "fsnode \<Rightarrow> exn + (pystr \<times> fsnode) list" where
  "iterdir (Dir entries) = Inr entries"
| "iterdir Denied = Inl PermissionError"
| "iterdir NoAccess = Inl PermissionError"
| "iterdir File = Inl NotADirectoryError"
| "iterdir Other = Inl NotADirectoryError"

text \<open>
  The connectors: \<open>CORNER\<close> (U+2514 U+2500 U+2500 and a space) for the last sibling,
  \<open>BRANCH\<close> (U+251C U+2500 U+2500 and a space) for the others, and \<open>BAR\<close> (U+2502 and
  three spaces), the indentation under an entry that is not the last one.
\<close>

definition CORNER :: pystr where
  "CORNER = [9492, 9472, 9472, 32]"

definition BRANCH :: pystr where
  "BRANCH = [9500, 9472, 9472, 32]"

definition BAR :: pystr where
  "BAR = [9474, 32, 32, 32]"

text \<open>
  The loop of \<open>walk\<close> that keeps the entries the filter does not skip. The relative path
  of an entry is the one of its directory followed by its name. \<open>p.is_dir()\<close> is
  evaluated before the filter is called; an exception of either leaves the loop.
\<close>

fun filter_entries ::
  "(pystr \<Rightarrow> pystr \<Rightarrow> bool) \<Rightarrow> pystr list \<Rightarrow> pystr set \<Rightarrow> pystr list
     \<Rightarrow> (pystr \<times> fsnode) list \<Rightarrow> exn + (pystr \<times> fsnode) list" where
  "filter_entries fnmatchcase rel exclude_dirs exclude_globs [] = Inr []"
| "filter_entries fnmatchcase rel exclude_dirs exclude_globs (p # entries) =
     (case is_dir (snd p) of
        Inl e \<Rightarrow> Inl e
      | Inr d \<Rightarrow>
          (case should_skip fnmatchcase (rel @ [fst p]) d exclude_dirs exclude_globs of
             Inl e \<Rightarrow> Inl e
           | Inr skip \<Rightarrow>
               (case filter_entries fnmatchcase rel exclude_dirs exclude_globs entries of
                  Inl e \<Rightarrow> Inl e
                | Inr filtered \<Rightarrow> Inr (if skip then filtered else p # filtered))))"

text \<open>
  \<open>filtered.sort(key=lambda p: (p.is_file(), p.name.lower()))\<close>: the keys of all entries
  are computed first, in order (an exception of \<open>is_file\<close> ends the sort), then the
  entries are sorted by their keys, stably. A key is the pair of the file flag and the
  lower-cased name; pairs and strings compare lexicographically, \<open>False\<close> before \<open>True\<close>.
  The case mapping \<open>lower\<close> is a parameter.
\<close>

fun sort_keys ::
  "(pystr \<Rightarrow> pystr) \<Rightarrow> (pystr \<times> fsnode) list
     \<Rightarrow> exn + ((bool \<times> pystr) \<times> (pystr \<times> fsnode)) list" where
  "sort_keys lower [] = Inr []"
| "sort_keys lower (p # ps) =
     (case is_file (snd p) of
        Inl e \<Rightarrow> Inl e
      | Inr f \<Rightarrow>
          (case sort_keys lower ps of
             Inl e \<Rightarrow> Inl e
           | Inr keyed \<Rightarrow> Inr (((f, lower (fst p)), p) # keyed)))"

definition sort_entries ::
  "(pystr \<Rightarrow> pystr) \<Rightarrow> (pystr \<times> fsnode) list \<Rightarrow> exn + (pystr \<times> fsnode) list" where
  "sort_entries lower filtered =
     (case sort_keys lower filtered of
        Inl e \<Rightarrow> Inl e
      | Inr keyed \<Rightarrow> Inr (map snd (sort_key fst keyed)))"

text \<open>
  The line of one entry: prefix, connector, name, and a slash after a directory.
\<close>

definition entry_line :: "pystr \<Rightarrow> bool \<Rightarrow> pystr \<Rightarrow> bool \<Rightarrow> pystr" where
  "entry_line prefix is_last name d =
     prefix @ (if is_last then CORNER else BRANCH) @ (name @ (if d then [SLASH] else []))"

text \<open>
  A line of the tree together with the entry it renders: its relative path and its node
  (\<open>None\<close> for the root line and for a placeholder). The label serves the statements
  about the lines; the output of the program is the list of the texts.
\<close>

type_synonym tree_line = "(pystr list \<times> fsnode) option \<times> pystr"

text \<open>
  The nested function \<open>walk\<close> of \<open>build_tree_lines\<close>, returning the lines it appends;
  \<open>emit\<close> is its loop over the sorted entries (the entry is the last sibling when no
  entry follows it). The loop asks \<open>p.is_dir()\<close> twice, for the name and for the
  descent; the answer is the same. The recursion ends because \<open>depth\<close> grows up to
  \<open>max_depth\<close>.
\<close>

function walk ::
    "(pystr \<Rightarrow> pystr \<Rightarrow> bool) \<Rightarrow> (pystr \<Rightarrow> pystr) \<Rightarrow> int \<Rightarrow> pystr set \<Rightarrow> pystr list
       \<Rightarrow> fsnode \<Rightarrow> pystr list \<Rightarrow> pystr \<Rightarrow> int \<Rightarrow> exn + tree_line list"
  and emit ::
    "(pystr \<Rightarrow> pystr \<Rightarrow> bool) \<Rightarrow> (pystr \<Rightarrow> pystr) \<Rightarrow> int \<Rightarrow> pystr set \<Rightarrow> pystr list
       \<Rightarrow> (pystr \<times> fsnode) list \<Rightarrow> pystr list \<Rightarrow> pystr \<Rightarrow> int \<Rightarrow> exn + tree_line list"
where
  "walk fnmatchcase lower max_depth exclude_dirs exclude_globs dir_path rel prefix depth =
     (if depth \<ge> max_depth then Inr []
      else
        (case iterdir dir_path of
           Inl e \<Rightarrow>
             (if e = PermissionError
              then Inr [(None, prefix @ CORNER @ ascii ''[permission denied]'')]
              else Inl e)
         | Inr entries \<Rightarrow>
             (case filter_entries fnmatchcase rel exclude_dirs exclude_globs entries of
                Inl e \<Rightarrow> Inl e
              | Inr filtered \<Rightarrow>
                  (case sort_entries lower filtered of
                     Inl e \<Rightarrow> Inl e
                   | Inr sorted_entries \<Rightarrow>
                       emit fnmatchcase lower max_depth exclude_dirs exclude_globs
                         sorted_entries rel prefix depth))))"
| "emit fnmatchcase lower max_depth exclude_dirs exclude_globs [] rel prefix depth = Inr []"
| "emit fnmatchcase lower max_depth exclude_dirs exclude_globs (p # rest) rel prefix depth =
     (case is_dir (snd p) of
        Inl e \<Rightarrow> Inl e
      | Inr d \<Rightarrow>
          (case (if d
                 then walk fnmatchcase lower max_depth exclude_dirs exclude_globs (snd p)
                        (rel @ [fst p]) (prefix @ (if rest = [] then ascii ''    '' else BAR))
                        (depth + 1)
                 else Inr []) of
             Inl e \<Rightarrow> Inl e
           | Inr inner \<Rightarrow>
               (case emit fnmatchcase lower max_depth exclude_dirs exclude_globs rest rel
                       prefix depth of
                  Inl e \<Rightarrow> Inl e
                | Inr more \<Rightarrow>
                    Inr ((Some (rel @ [fst p], snd p), entry_line prefix (rest = []) (fst p) d)
                         # inner @ more))))"
  by pat_completeness auto
termination
  by (relation "inv_image (less_than <*lex*> less_than)
        (\<lambda>x. case x of
           Inl (fnmatchcase, lower, max_depth, xd, xg, dir_path, rel, prefix, depth) \<Rightarrow>
             (nat (max_depth - depth), 0)
         | Inr (fnmatchcase, lower, max_depth, xd, xg, entries, rel, prefix, depth) \<Rightarrow>
             (nat (max_depth - (depth + 1)), Suc (length entries)))") auto

text \<open>
  \<open>build_tree_lines\<close>: the root line (the absolute path of the root, here \<open>label\<close>)
  followed by the lines of the walk from depth 0.
\<close>

definition build_tree_lines ::
  "(pystr \<Rightarrow> pystr \<Rightarrow> bool) \<Rightarrow> (pystr \<Rightarrow> pystr) \<Rightarrow> pystr \<Rightarrow> fsnode \<Rightarrow> int \<Rightarrow> pystr set
     \<Rightarrow> pystr list \<Rightarrow> exn + pystr list" where
  "build_tree_lines fnmatchcase lower label root max_depth exclude_dirs exclude_globs =
     (case walk fnmatchcase lower max_depth exclude_dirs exclude_globs root [] [] 0 of
        Inl e \<Rightarrow> Inl e
      | Inr lines \<Rightarrow> Inr (label # map snd lines))"

subsection \<open>Notions for the statements about the tree\<close>

text \<open>
  The answers of \<open>is_dir\<close> and \<open>is_file\<close> as predicates (false when the call raises),
  and the sort key of an entry: its file flag and its lower-cased name.
\<close>

definition directory :: "fsnode \<Rightarrow> bool" where
  "directory n = (is_dir n = Inr True)"

definition regular :: "fsnode \<Rightarrow> bool" where
  "regular n = (is_file n = Inr True)"

definition sort_key_of :: "(pystr \<Rightarrow> pystr) \<Rightarrow> pystr \<times> fsnode \<Rightarrow> bool \<times> pystr" where
  "sort_key_of lower p = (regular (snd p), lower (fst p))"

text \<open>
  An entry that the filter loop keeps: \<open>is_dir\<close> answers and \<open>_should_skip\<close> returns
  \<open>False\<close>.
\<close>

definition kept ::
  "(pystr \<Rightarrow> pystr \<Rightarrow> bool) \<Rightarrow> pystr set \<Rightarrow> pystr list \<Rightarrow> pystr list \<Rightarrow> pystr \<times> fsnode \<Rightarrow> bool" where
  "kept fnmatchcase exclude_dirs exclude_globs rel p =
     (case is_dir (snd p) of
        Inl e \<Rightarrow> False
      | Inr d \<Rightarrow> should_skip fnmatchcase (rel @ [fst p]) d exclude_dirs exclude_globs = Inr False)"

text \<open>
  The entries rendered by a list of lines, and their relative paths.
\<close>

definition entry_labels :: "tree_line list \<Rightarrow> (pystr list \<times> fsnode) set" where
  "entry_labels out = {x. \<exists>l. (Some x, l) \<in> set out}"

definition entry_paths :: "tree_line list \<Rightarrow> pystr list set" where
  "entry_paths out = fst ` entry_labels out"

text \<open>
  The path \<open>q\<close> lies beneath \<open>rel\<close>, at most \<open>levels\<close> levels deeper, and none of its
  segments is in \<open>X\<close>.
\<close>

definition below :: "pystr set \<Rightarrow> int \<Rightarrow> pystr list \<Rightarrow> pystr list \<Rightarrow> bool" where
  "below X levels rel q =
     (set q \<inter> X = {} \<and> int (length q) \<le> int (length rel) + levels \<and>
      length rel < length q \<and> take (length rel) q = rel)"

text \<open>
  The text of a line is the rendering of its entry: a placeholder line ends with the
  corner connector and \<open>[permission denied]\<close>; the line of an entry with the path \<open>q\<close>
  is the entry line of the last segment of \<open>q\<close>, with a slash exactly when the entry is a
  directory, behind a prefix of four characters for each level between the entry and the
  directory where the walk started (\<open>plen\<close> and \<open>rlen\<close> are the lengths of the prefix
  and of the relative path there).
\<close>

definition shown :: "nat \<Rightarrow> nat \<Rightarrow> tree_line \<Rightarrow> bool" where
  "shown plen rlen line =
     (case fst line of
        None \<Rightarrow> (\<exists>pfx. snd line = pfx @ CORNER @ ascii ''[permission denied]'')
      | Some (q, n) \<Rightarrow>
          rlen < length q \<and>
          (\<exists>pfx is_last d. is_dir n = Inr d \<and> length pfx = plen + 4 * (length q - Suc rlen) \<and>
             snd line = entry_line pfx is_last (last q) d))"

text \<open>
  The lines of one directory level without descent: one entry line for each entry, in
  order, the last one with the corner connector.
\<close>

fun level_lines :: "pystr list \<Rightarrow> pystr \<Rightarrow> (pystr \<times> fsnode) list \<Rightarrow> tree_line list" where
  "level_lines rel prefix [] = []"
| "level_lines rel prefix (p # rest) =
     (Some (rel @ [fst p], snd p), entry_line prefix (rest = []) (fst p) (directory (snd p)))
       # level_lines rel prefix rest"


text \<open>
  The order of two lines of the same directory (the paths of their entries have the same
  parent), the first standing before the second: a regular file does not stand before a
  directory, nor before any other entry that is not a regular file, and when both are
  regular files, or both are not, their lower-cased names are in order. Lines of
  different directories and placeholder lines are not constrained.
\<close>

definition sib_le :: "(pystr \<Rightarrow> pystr) \<Rightarrow> tree_line \<Rightarrow> tree_line \<Rightarrow> bool" where
  "sib_le lower a b =
     (case fst a of
        None \<Rightarrow> True
      | Some (q, n) \<Rightarrow>
          (case fst b of
             None \<Rightarrow> True
           | Some (q', n') \<Rightarrow>
               butlast q = butlast q' \<longrightarrow>
                 \<not> (regular n \<and> directory n') \<and>
                 (regular n \<longrightarrow> regular n') \<and>
                 (regular n = regular n' \<longrightarrow> lower (last q) \<le> lower (last q'))))"

text \<open>
  Examples. \<open>str.lower\<close> on ASCII strings; a directory with a socket \<open>a\<close> and a
  directory \<open>b\<close>; a directory with files and directories on two levels, and the lines
  of its walk to depth 2; a directory with \<open>node_modules\<close> on two levels, and the lines of
  its walk when \<open>node_modules\<close> is excluded.
\<close>

definition ascii_lower :: "pystr \<Rightarrow> pystr" where
  "ascii_lower s = map (\<lambda>c. if 65 \<le> c \<and> c \<le> 90 then c + 32 else c) s"


definition example_dir :: fsnode where
  "example_dir =
     Dir [(ascii ''B.txt'', File),
          (ascii ''a'', Dir [(ascii ''z.py'', File), (ascii ''Y'', Dir [])]),
          (ascii ''Z'', Dir []),
          (ascii ''a.txt'', File)]"


definition nested_dir :: fsnode where
  "nested_dir =
     Dir [(ascii ''src'',
             Dir [(ascii ''node_modules'', Dir [(ascii ''x.js'', File)]), (ascii ''a.py'', File)]),
          (ascii ''node_modules'', Dir [(ascii ''y.js'', File)])]"

definition nested_out :: "tree_line list" where
  "nested_out =
     [(Some ([ascii ''src''],
             Dir [(ascii ''node_modules'', Dir [(ascii ''x.js'', File)]), (ascii ''a.py'', File)]),
         CORNER @ ascii ''src/''),
      (Some ([ascii ''src'', ascii ''a.py''], File), ascii ''    '' @ CORNER @ ascii ''a.py'')]"

text \<open>
  The texts of the lines of a walk, without the labels.
\<close>

definition texts :: "exn + tree_line list \<Rightarrow> exn + pystr list" where
  "texts r = (case r of Inl e \<Rightarrow> Inl e | Inr out \<Rightarrow> Inr (map snd out))"

text \<open>
  A directory with nothing in it, in place of a directory (whether or not it can be
  listed); any other entry stays as it is.
\<close>

definition emptied :: "fsnode \<Rightarrow> fsnode" where
  "emptied n = (case n of Dir entries \<Rightarrow> Dir [] | Denied \<Rightarrow> Dir [] | _ \<Rightarrow> n)"

text \<open>
  \<open>hollow X\<close> empties, at every depth, each directory whose name is in \<open>X\<close>.
\<close>

fun hollow :: "pystr set \<Rightarrow> fsnode \<Rightarrow> fsnode"
  and hollow_entries :: "pystr set \<Rightarrow> (pystr \<times> fsnode) list \<Rightarrow> (pystr \<times> fsnode) list" where
  "hollow X (Dir entries) = Dir (hollow_entries X entries)"
| "hollow X File = File"
| "hollow X Other = Other"
| "hollow X NoAccess = NoAccess"
| "hollow X Denied = Denied"
| "hollow_entries X [] = []"
| "hollow_entries X (p # entries) =
     (fst p, if fst p \<in> X then emptied (snd p) else hollow X (snd p)) # hollow_entries X entries"

text \<open>
  \<open>cut k\<close> empties each directory that lies \<open>k\<close> levels below the node.
\<close>

fun cut :: "nat \<Rightarrow> fsnode \<Rightarrow> fsnode" where
  "cut 0 n = emptied n"
| "cut (Suc k) (Dir entries) = Dir (map (\<lambda>p. (fst p, cut k (snd p))) entries)"
| "cut (Suc k) n = n"

section \<open>Properties of the Text Truncator\<close>

lemma truncate_block_eq: "truncate_block = truncate"
  by (intro ext) (simp add: truncate_block_def truncate_def)

lemma length_marker: "length marker = 13"
  by (simp add: marker_def ascii_def)

lemma length_rstrip_le: "length (rstrip s) \<le> length s"
  unfolding rstrip_def using length_dropWhile_le [of is_space "rev s"] by simp

lemma length_slice_to_le: "0 \<le> k \<Longrightarrow> int (length (slice_to xs k)) \<le> k"
  by (simp add: slice_to_def)

lemma no_break_split: "\<forall>l \<in> set (splitlines t). \<forall>c \<in> set l. \<not> is_linebreak c"
proof (induction t rule: splitlines.induct)
  case 1
  then show ?case by simp
next
  case (2 c cs)
  show ?case
  proof (cases "is_linebreak c")
    case True
    then show ?thesis using 2(1) by simp
  next
    case False
    then show ?thesis using 2(2) by (cases "splitlines cs") auto
  qed
qed

lemma splitlines_line: "\<forall>c \<in> set l. \<not> is_linebreak c \<Longrightarrow> l \<noteq> [] \<Longrightarrow> splitlines l = [l]"
proof (induction l)
  case Nil
  then show ?case by simp
next
  case (Cons a l)
  then show ?case by (cases l) auto
qed

lemma splitlines_append_LF:
  "\<forall>c \<in> set l. \<not> is_linebreak c \<Longrightarrow> splitlines (l @ LF # r) = l # splitlines r"
proof (induction l)
  case Nil
  then show ?case by (simp add: LF_def CR_def is_linebreak_def)
next
  case (Cons a l)
  then show ?case by simp
qed

lemma is_linebreak_LF: "is_linebreak LF"
  by (simp add: is_linebreak_def LF_def)

lemma splitlines_join:
  "\<forall>l \<in> set ls. \<forall>c \<in> set l. \<not> is_linebreak c \<Longrightarrow> ls = [] \<or> last ls \<noteq> [] \<Longrightarrow>
   splitlines (join [LF] ls) = ls"
proof (induction "[LF]" ls rule: join.induct)
  case 1
  then show ?case by simp
next
  case (2 l)
  then show ?case by (simp add: splitlines_line)
next
  case (3 l m ls)
  then show ?case by (simp add: splitlines_append_LF)
qed

lemma join_Cons_Cons: "join sep ((c # l) # ls) = c # join sep (l # ls)"
  by (cases ls) simp_all

lemma splitlines_Nil_iff: "splitlines x = [] \<longleftrightarrow> x = []"
  by (cases x) (auto split: list.splits)

lemma splitlines_lf_LF: "splitlines (LF # cs) = [] # splitlines cs"
  by (simp add: is_linebreak_def LF_def CR_def)

lemma join_splitlines:
  "lf_only x \<Longrightarrow> x = [] \<or> last x \<noteq> LF \<Longrightarrow> join [LF] (splitlines x) = x"
proof (induction x)
  case Nil
  then show ?case by simp
next
  case (Cons c cs)
  have lf: "lf_only cs" using Cons.prems(1) by (simp add: lf_only_def)
  have la: "cs = [] \<or> last cs \<noteq> LF" using Cons.prems(2) by (cases cs) auto
  have ih: "join [LF] (splitlines cs) = cs" using Cons.IH lf la by simp
  show ?case
  proof (cases "c = LF")
    case True
    then have ne: "cs \<noteq> []" using Cons.prems(2) by auto
    then obtain l ls where sp: "splitlines cs = l # ls"
      using splitlines_Nil_iff [of cs] by (cases "splitlines cs") auto
    show ?thesis using True ih sp by (simp add: splitlines_lf_LF del: splitlines.simps)
  next
    case False
    then have nb: "\<not> is_linebreak c" using Cons.prems(1) by (auto simp: lf_only_def)
    show ?thesis
    proof (cases "splitlines cs")
      case Nil
      then have "cs = []" by (simp add: splitlines_Nil_iff)
      then show ?thesis using nb by simp
    next
      case (Cons l ls)
      then show ?thesis using nb ih by (simp add: join_Cons_Cons)
    qed
  qed
qed

lemma length_splitlines:
  "lf_only x \<Longrightarrow> x \<noteq> [] \<Longrightarrow> last x \<noteq> LF \<Longrightarrow>
   length (splitlines x) = Suc (count_list x LF)"
proof (induction x)
  case Nil
  then show ?case by simp
next
  case (Cons c cs)
  have lf: "lf_only cs" using Cons.prems(1) by (simp add: lf_only_def)
  show ?case
  proof (cases "c = LF")
    case True
    then have ne: "cs \<noteq> []" using Cons.prems(3) by auto
    then have "last cs \<noteq> LF" using Cons.prems(3) by simp
    then show ?thesis using True Cons.IH lf ne by (simp add: splitlines_lf_LF del: splitlines.simps)
  next
    case False
    then have nb: "\<not> is_linebreak c" using Cons.prems(1) by (auto simp: lf_only_def)
    show ?thesis
    proof (cases "cs = []")
      case True
      then show ?thesis using nb False by simp
    next
      case ne: False
      then have "last cs \<noteq> LF" using Cons.prems(3) by simp
      then have "length (splitlines cs) = Suc (count_list cs LF)" using Cons.IH lf ne by simp
      then show ?thesis using nb False by (cases "splitlines cs") auto
    qed
  qed
qed

lemma last_splitlines_aux:
  "lf_only s \<Longrightarrow> no_break m \<Longrightarrow> m \<noteq> [] \<Longrightarrow>
   last (splitlines (s @ LF # m)) = m \<and> 2 \<le> length (splitlines (s @ LF # m))"
proof (induction s)
  case Nil
  then show ?case by (simp add: splitlines_lf_LF splitlines_line no_break_def del: splitlines.simps)
next
  case (Cons c cs)
  have lf: "lf_only cs" using Cons.prems(1) by (simp add: lf_only_def)
  have ih: "last (splitlines (cs @ LF # m)) = m \<and> 2 \<le> length (splitlines (cs @ LF # m))"
    using Cons lf by simp
  show ?case
  proof (cases "c = LF")
    case True
    then show ?thesis using ih by (auto simp add: splitlines_lf_LF simp del: splitlines.simps)
  next
    case False
    then have nb: "\<not> is_linebreak c" using Cons.prems(1) by (auto simp: lf_only_def)
    obtain l r where sp1: "splitlines (cs @ LF # m) = l # r"
      using ih by (cases "splitlines (cs @ LF # m)") auto
    then obtain k ls where sp: "splitlines (cs @ LF # m) = l # k # ls"
      using ih by (cases r) auto
    show ?thesis using ih nb sp by simp
  qed
qed

lemma last_splitlines:
  "lf_only s \<Longrightarrow> no_break m \<Longrightarrow> m \<noteq> [] \<Longrightarrow> last (splitlines (s @ LF # m)) = m"
  using last_splitlines_aux by blast

lemma truncate_stages:
  "truncate text max_lines max_chars = cap_chars (join [LF] (cap_lines (splitlines text) max_lines)) max_chars"
  by (simp add: truncate_def cap_lines_def cap_chars_def Let_def)

lemma no_break_marker: "no_break marker"
  by (simp add: no_break_def marker_def ascii_def is_linebreak_def)

lemma marker_not_Nil: "marker \<noteq> []"
  by (simp add: marker_def)

lemma last_marker: "last marker \<noteq> LF"
  by (simp add: marker_def ascii_def LF_def)

lemma cap_lines_fixed:
  assumes "0 \<le> L" and "int (length ls) \<le> L + 1" and "int (length ls) = L + 1 \<longrightarrow> last ls = marker"
  shows "cap_lines ls L = ls"
proof (cases "int (length ls) > L")
  case False
  then show ?thesis by (simp add: cap_lines_def)
next
  case True
  then have len: "length ls = Suc (nat L)" using assms by linarith
  then have ne: "ls \<noteq> []" by auto
  have "int (length ls) = L + 1" using len assms(1) by simp
  then have "last ls = marker" using assms(3) by blast
  then have "ls = butlast ls @ [marker]" using ne append_butlast_last_id [of ls] by simp
  moreover have "take (nat L) ls = butlast ls" using len by (simp add: butlast_conv_take)
  ultimately show ?thesis using True assms(1) by (simp add: cap_lines_def slice_to_def)
qed

lemma cap_lines_props:
  assumes "0 \<le> L"
  shows "int (length (cap_lines ls L)) \<le> L + 1"
    and "int (length (cap_lines ls L)) = L + 1 \<longrightarrow> last (cap_lines ls L) = marker"
  using assms by (auto simp: cap_lines_def slice_to_def)

lemma cap_lines_no_break:
  "\<forall>l \<in> set ls. no_break l \<Longrightarrow> 0 \<le> L \<Longrightarrow> \<forall>l \<in> set (cap_lines ls L). no_break l"
  by (auto simp: cap_lines_def slice_to_def no_break_marker dest: in_set_takeD)

lemma cap_lines_last:
  "ls = [] \<or> last ls \<noteq> [] \<Longrightarrow> cap_lines ls L = [] \<or> last (cap_lines ls L) \<noteq> []"
  by (auto simp: cap_lines_def marker_not_Nil)

lemma lf_only_join: "\<forall>l \<in> set ls. no_break l \<Longrightarrow> lf_only (join [LF] ls)"
  by (induction "[LF]" ls rule: join.induct) (auto simp: lf_only_def no_break_def)

lemma count_no_break: "no_break l \<Longrightarrow> count_list l LF = 0"
  using is_linebreak_LF by (auto simp: no_break_def count_list_0_iff)

lemma count_join:
  "\<forall>l \<in> set ls. no_break l \<Longrightarrow> count_list (join [LF] ls) LF = length ls - 1"
  by (induction "[LF]" ls rule: join.induct) (auto simp: count_no_break)

lemma join_snoc: "ls \<noteq> [] \<Longrightarrow> join sep (ls @ [m]) = join sep ls @ sep @ m"
  by (induction sep ls rule: join.induct) auto

lemma rstrip_prefix: "\<exists>w. s = rstrip s @ w"
proof -
  have "rev (takeWhile is_space (rev s) @ dropWhile is_space (rev s)) = rev (rev s)"
    by (simp only: takeWhile_dropWhile_id)
  then have "s = rstrip s @ rev (takeWhile is_space (rev s))"
    by (simp only: rev_append rev_rev_ident rstrip_def)
  then show ?thesis ..
qed

lemma count_rstrip_le: "count_list (rstrip s) c \<le> count_list s c"
proof -
  obtain w where "s = rstrip s @ w" using rstrip_prefix by blast
  then have "count_list s c = count_list (rstrip s) c + count_list w c"
    by (metis count_list_append)
  then show ?thesis by simp
qed

lemma count_take_le: "count_list (take n s) c \<le> count_list s c"
proof -
  have "count_list s c = count_list (take n s) c + count_list (drop n s) c"
    by (metis append_take_drop_id count_list_append)
  then show ?thesis by simp
qed

lemma set_rstrip: "set (rstrip s) \<subseteq> set s"
  by (auto simp: rstrip_def dest: set_dropWhileD)

lemma lf_only_rstrip_take: "lf_only s \<Longrightarrow> lf_only (rstrip (take n s))"
  using set_rstrip [of "take n s"] by (auto simp: lf_only_def dest: in_set_takeD)

lemma rstrip_last: "rstrip s = [] \<or> \<not> is_space (last (rstrip s))"
proof (cases "dropWhile is_space (rev s)")
  case Nil
  then show ?thesis by (simp add: rstrip_def)
next
  case (Cons a as)
  then have "\<not> is_space a" using hd_dropWhile [of is_space "rev s"] by auto
  then show ?thesis using Cons by (simp add: rstrip_def)
qed

lemma is_space_LF: "is_space LF"
  by (simp add: is_space_def LF_def)

lemma cap_chars_tail:
  assumes C: "20 \<le> C" and lf: "lf_only out" and cnt: "int (count_list (take (nat (C - 20)) out) LF) + 1 \<le> L"
    and L: "0 \<le> L" and big: "int (length out) > C"
  shows "truncate (cap_chars out C) L C = cap_chars out C"
proof -
  define s where "s = rstrip (take (nat (C - 20)) out)"
  define o' where "o' = s @ LF # marker"
  have o': "cap_chars out C = o'"
    using big C by (simp add: cap_chars_def slice_to_def s_def o'_def)
  have lfs: "lf_only s" unfolding s_def using lf by (rule lf_only_rstrip_take)
  have lfo: "lf_only o'"
    using lfs no_break_marker by (auto simp: o'_def lf_only_def no_break_def)
  have lasto: "last o' \<noteq> LF" using last_marker marker_not_Nil by (simp add: o'_def)
  have neo: "o' \<noteq> []" by (simp add: o'_def)
  have j: "join [LF] (splitlines o') = o'" using join_splitlines [OF lfo] lasto by simp
  have cs: "count_list s LF \<le> count_list (take (nat (C - 20)) out) LF"
    unfolding s_def by (rule count_rstrip_le)
  have "count_list o' LF = Suc (count_list s LF)"
    using count_no_break [OF no_break_marker] by (simp add: o'_def)
  then have len: "length (splitlines o') = Suc (Suc (count_list s LF))"
    using length_splitlines [OF lfo neo lasto] by simp
  have lastl: "last (splitlines o') = marker"
    unfolding o'_def using lfs no_break_marker marker_not_Nil by (rule last_splitlines)
  have le: "int (length (splitlines o')) \<le> L + 1" using len cs cnt by linarith
  have capl: "cap_lines (splitlines o') L = splitlines o'"
    using cap_lines_fixed [OF L le] lastl by simp
  have "length s \<le> nat (C - 20)"
    unfolding s_def using length_rstrip_le [of "take (nat (C - 20)) out"] by simp
  then have "int (length o') \<le> C" using C by (simp add: o'_def length_marker)
  then have "cap_chars o' C = o'" by (simp add: cap_chars_def)
  then show ?thesis using o' capl j by (simp add: truncate_stages)
qed

lemma truncate_idem_aux:
  assumes L: "0 \<le> L" and C: "20 \<le> C"
    and t: "splitlines t = [] \<or> last (splitlines t) \<noteq> []"
  shows "truncate (truncate t L C) L C = truncate t L C"
proof -
  define ls1 where "ls1 = cap_lines (splitlines t) L"
  define out where "out = join [LF] ls1"
  have nb0: "\<forall>l \<in> set (splitlines t). no_break l"
    using no_break_split [of t] by (simp add: no_break_def)
  have nb: "\<forall>l \<in> set ls1. no_break l"
    unfolding ls1_def using nb0 L by (rule cap_lines_no_break)
  have la: "ls1 = [] \<or> last ls1 \<noteq> []" unfolding ls1_def using t by (rule cap_lines_last)
  have T: "truncate t L C = cap_chars out C" by (simp add: truncate_stages out_def ls1_def)
  show ?thesis
  proof (cases "int (length out) > C")
    case False
    have sp: "splitlines out = ls1"
      unfolding out_def using nb la by (simp add: splitlines_join no_break_def)
    have "cap_lines ls1 L = ls1"
      unfolding ls1_def using cap_lines_fixed [OF L cap_lines_props [OF L]] by simp
    then have "truncate out L C = cap_chars out C"
      using sp by (simp add: truncate_stages out_def)
    then show ?thesis using False T by (simp add: cap_chars_def)
  next
    case True
    have lf: "lf_only out" unfolding out_def using nb by (rule lf_only_join)
    have cnt: "int (count_list (take (nat (C - 20)) out) LF) + 1 \<le> L"
    proof (cases "int (length (splitlines t)) > L")
      case False
      then have eq: "ls1 = splitlines t" by (simp add: ls1_def cap_lines_def)
      have "ls1 \<noteq> []" using True C by (auto simp: out_def)
      then have "length ls1 \<ge> 1" by (cases ls1) auto
      moreover have "count_list out LF = length ls1 - 1"
        unfolding out_def using nb by (rule count_join)
      moreover have "int (length ls1) \<le> L" using False eq by simp
      ultimately have "int (count_list out LF) + 1 \<le> L" by linarith
      then show ?thesis using count_take_le [of "nat (C - 20)" out LF] by linarith
    next
      case long: True
      define pre where "pre = take (nat L) (splitlines t)"
      have ls1: "ls1 = pre @ [marker]"
        using long L by (simp add: ls1_def cap_lines_def slice_to_def pre_def)
      have lenpre: "length pre = nat L" using long L by (simp add: pre_def)
      have nbp: "\<forall>l \<in> set pre. no_break l" using nb ls1 by simp
      show ?thesis
      proof (cases "pre = []")
        case True
        then have "out = marker" by (simp add: out_def ls1)
        then show ?thesis using \<open>int (length out) > C\<close> C by (simp add: length_marker)
      next
        case False
        then have o: "out = join [LF] pre @ LF # marker"
          by (simp add: out_def ls1 join_snoc)
        then have "length out = length (join [LF] pre) + 14" by (simp add: length_marker)
        then have "nat (C - 20) \<le> length (join [LF] pre)" using \<open>int (length out) > C\<close> by linarith
        then have "take (nat (C - 20)) out = take (nat (C - 20)) (join [LF] pre)"
          using o by simp
        moreover have "count_list (join [LF] pre) LF = nat L - 1"
          using count_join [OF nbp] lenpre by simp
        moreover have "nat L \<ge> 1" using False lenpre by (cases pre) auto
        ultimately show ?thesis
          using count_take_le [of "nat (C - 20)" "join [LF] pre" LF] L by simp
      qed
    qed
    show ?thesis using cap_chars_tail [OF C lf cnt L True] T by simp
  qed
qed

lemma truncate_length_aux:
  assumes "20 \<le> max_chars"
  shows "int (length (truncate text max_lines max_chars)) \<le> max_chars"
proof -
  have "int (length (rstrip (slice_to out (max_chars - 20)) @ [LF] @ marker)) \<le> max_chars" for out
    using length_rstrip_le [of "slice_to out (max_chars - 20)"]
      length_slice_to_le [of "max_chars - 20" out] assms
    by (simp add: length_marker)
  then show ?thesis
    by (simp add: truncate_def Let_def)
qed

lemma truncate_short_limit:
  "int (length (truncate (ascii ''aaaaaaaaaaaaaaaaaaaa'') 5 19)) = 33"
  by (simp add: truncate_def ascii_def LF_def CR_def is_linebreak_def Let_def slice_to_def
      marker_def rstrip_def is_space_def)

text \<open>
  Claim C3, as the specification states it: for every text and all limits, truncating the
  output of \<open>truncate\<close> again with the same limits changes nothing. The code does not
  do that: \<open>splitlines\<close> drops one trailing empty line at each pass, so the text
  \<open>"a\n\n"\<close>, which neither limit of docs_pack.py (40 lines, 2500 characters) touches,
  becomes \<open>"a\n"\<close> and then \<open>"a"\<close>.
\<close>

theorem truncate_not_idempotent:
  "truncate (truncate (ascii ''a'' @ [LF, LF]) 40 2500) 40 2500
     \<noteq> truncate (ascii ''a'' @ [LF, LF]) 40 2500"
  by (simp add: truncate_def ascii_def LF_def CR_def is_linebreak_def Let_def slice_to_def)

text \<open>
  Two more inputs where a second pass changes the output: a negative line limit, and a
  character limit below 20 (the cut index \<open>max_chars - 20\<close> is negative then).
\<close>

lemma truncate_not_idempotent_negative_lines:
  "truncate (ascii ''a'' @ [LF] @ ascii ''b'' @ [LF] @ ascii ''c'') (- 2) 100
     = ascii ''a'' @ [LF] @ marker \<and>
   truncate (ascii ''a'' @ [LF] @ marker) (- 2) 100 = marker"
  by (simp add: truncate_def ascii_def LF_def CR_def is_linebreak_def Let_def slice_to_def
      marker_def)

lemma truncate_not_idempotent_short_limit:
  "truncate (truncate (ascii ''aaaaaaaaaaaaaaaaaaaa'') 5 19) 5 19
     \<noteq> truncate (ascii ''aaaaaaaaaaaaaaaaaaaa'') 5 19"
  by (simp add: truncate_def ascii_def LF_def CR_def is_linebreak_def Let_def slice_to_def
      marker_def rstrip_def is_space_def)

text \<open>
  Claim C3, amended: for every text whose last line (as \<open>splitlines\<close> cuts it) is not
  empty, every \<open>max_lines \<ge> 0\<close> and every \<open>max_chars \<ge> 20\<close>, truncating the output
  of \<open>truncate\<close> again with the same limits yields the same output: no further marker
  is appended.
\<close>

theorem truncate_idempotent:
  assumes "0 \<le> max_lines" and "20 \<le> max_chars"
    and "splitlines text = [] \<or> last (splitlines text) \<noteq> []"
  shows "truncate (truncate text max_lines max_chars) max_lines max_chars
           = truncate text max_lines max_chars"
  using assms by (rule truncate_idem_aux)

theorem truncate_idempotent_witness:
  "truncate (ascii ''ab'' @ [LF] @ ascii ''cd'' @ [LF] @ ascii ''ef'') 1 100
     = ascii ''ab'' @ [LF] @ marker \<and>
   truncate (truncate (ascii ''ab'' @ [LF] @ ascii ''cd'' @ [LF] @ ascii ''ef'') 1 100) 1 100
     = truncate (ascii ''ab'' @ [LF] @ ascii ''cd'' @ [LF] @ ascii ''ef'') 1 100"
proof -
  have "splitlines (ascii ''ab'' @ [LF] @ ascii ''cd'' @ [LF] @ ascii ''ef'')
          = [ascii ''ab'', ascii ''cd'', ascii ''ef'']"
    by (simp add: ascii_def LF_def CR_def is_linebreak_def)
  then have "splitlines (ascii ''ab'' @ [LF] @ ascii ''cd'' @ [LF] @ ascii ''ef'') = [] \<or>
      last (splitlines (ascii ''ab'' @ [LF] @ ascii ''cd'' @ [LF] @ ascii ''ef'')) \<noteq> []"
    by (simp add: ascii_def)
  then have "truncate (truncate (ascii ''ab'' @ [LF] @ ascii ''cd'' @ [LF] @ ascii ''ef'') 1 100) 1 100
     = truncate (ascii ''ab'' @ [LF] @ ascii ''cd'' @ [LF] @ ascii ''ef'') 1 100"
    using truncate_idempotent [of 1 100 "ascii ''ab'' @ [LF] @ ascii ''cd'' @ [LF] @ ascii ''ef''"]
    by simp
  moreover have "truncate (ascii ''ab'' @ [LF] @ ascii ''cd'' @ [LF] @ ascii ''ef'') 1 100
     = ascii ''ab'' @ [LF] @ marker"
    by (simp add: truncate_def ascii_def LF_def CR_def is_linebreak_def Let_def slice_to_def
        marker_def)
  ultimately show ?thesis by simp
qed

text \<open>
  Claim C9: for every text and every \<open>max_lines\<close>, if \<open>max_chars \<ge> 20\<close> the output of
  \<open>truncate\<close> has at most \<open>max_chars\<close> characters; below 20 the bound is not
  guaranteed (twenty letters with \<open>max_chars = 19\<close> give 33 characters).
\<close>

theorem truncate_length_bound:
  "(20 \<le> max_chars \<longrightarrow> int (length (truncate text max_lines max_chars)) \<le> max_chars) \<and>
   (\<exists>text' max_lines' max_chars'. max_chars' < 20 \<and>
      int (length (truncate text' max_lines' max_chars')) > max_chars')"
proof
  show "20 \<le> max_chars \<longrightarrow> int (length (truncate text max_lines max_chars)) \<le> max_chars"
    using truncate_length_aux by blast
  have "(19::int) < 20 \<and> int (length (truncate (ascii ''aaaaaaaaaaaaaaaaaaaa'') 5 19)) > 19"
    using truncate_short_limit by simp
  then show "\<exists>text' max_lines' max_chars'. max_chars' < 20 \<and>
      int (length (truncate text' max_lines' max_chars')) > max_chars'"
    by blast
qed

theorem truncate_length_bound_witness:
  "(20::int) \<le> 30 \<and>
   truncate (ascii ''aaaaaaaaaaaaaaaaaaaaaaaaaaaaaaaaaaaaaaaa'') 5 30
     = ascii ''aaaaaaaaaa'' @ [LF] @ marker \<and>
   int (length (truncate (ascii ''aaaaaaaaaaaaaaaaaaaaaaaaaaaaaaaaaaaaaaaa'') 5 30)) \<le> 30"
proof -
  have "int (length (truncate (ascii ''aaaaaaaaaaaaaaaaaaaaaaaaaaaaaaaaaaaaaaaa'') 5 30)) \<le> 30"
    using truncate_length_bound [of 30 "ascii ''aaaaaaaaaaaaaaaaaaaaaaaaaaaaaaaaaaaaaaaa''" 5]
    by simp
  moreover have "truncate (ascii ''aaaaaaaaaaaaaaaaaaaaaaaaaaaaaaaaaaaaaaaa'') 5 30
     = ascii ''aaaaaaaaaa'' @ [LF] @ marker"
    by (simp add: truncate_def ascii_def LF_def CR_def is_linebreak_def Let_def slice_to_def
        marker_def rstrip_def is_space_def)
  ultimately show ?thesis by simp
qed

section \<open>Properties of the Documentation Extractor\<close>

lemma in_set_dropWhile: "x \<in> set xs \<Longrightarrow> \<not> P x \<Longrightarrow> x \<in> set (dropWhile P xs)"
  by (induction xs) auto

lemma nonspace_strip_nl:
  "(\<exists>c \<in> set (strip_nl v). \<not> is_space c) \<longleftrightarrow> (\<exists>c \<in> set v. \<not> is_space c)"
proof
  assume "\<exists>c \<in> set (strip_nl v). \<not> is_space c"
  then show "\<exists>c \<in> set v. \<not> is_space c"
    by (auto simp: strip_nl_def dest!: set_dropWhileD)
next
  assume "\<exists>c \<in> set v. \<not> is_space c"
  then obtain c where c: "c \<in> set v" "\<not> is_space c" by blast
  then have "c \<noteq> LF" using is_space_LF by auto
  then have "c \<in> set (dropWhile (\<lambda>c. c = LF) v)" using c(1) by (simp add: in_set_dropWhile)
  then have "c \<in> set (dropWhile (\<lambda>c. c = LF) (rev (dropWhile (\<lambda>c. c = LF) v)))"
    using \<open>c \<noteq> LF\<close> by (simp add: in_set_dropWhile)
  then show "\<exists>c \<in> set (strip_nl v). \<not> is_space c" using c(2) by (auto simp: strip_nl_def)
qed

lemma strip_Nil_iff: "strip s = [] \<longleftrightarrow> (\<forall>c \<in> set s. is_space c)"
proof
  assume e: "strip s = []"
  show "\<forall>c \<in> set s. is_space c"
  proof (rule ccontr)
    assume "\<not> (\<forall>c \<in> set s. is_space c)"
    then obtain c where c: "c \<in> set s" "\<not> is_space c" by blast
    then have "c \<in> set (dropWhile is_space s)" by (simp add: in_set_dropWhile)
    then have "c \<in> set (dropWhile is_space (rev (dropWhile is_space s)))"
      using c(2) by (simp add: in_set_dropWhile)
    moreover have "dropWhile is_space (rev (dropWhile is_space s)) = []"
      using e by (simp add: strip_def rstrip_def)
    ultimately show False by simp
  qed
next
  assume "\<forall>c \<in> set s. is_space c"
  then show "strip s = []" by (auto simp: strip_def rstrip_def dest: set_dropWhileD)
qed

lemma blank_test: "strip (strip_nl v) \<noteq> [] \<longleftrightarrow> (\<exists>c \<in> set v. \<not> is_space c)"
  using strip_Nil_iff [of "strip_nl v"] nonspace_strip_nl [of v] by blast

lemma scan_yield_all:
  "\<forall>t \<in> set ts. is_trivia (tok_type t) \<Longrightarrow> scan_tokens lit (yield_all ts g) = scan_tokens lit g"
  by (induction ts) simp_all

lemma extract_fallback:
  "ast_parse py src = Inl e \<Longrightarrow>
   extract_module_docstring py src = extract_module_docstring_fallback py src"
  by (simp add: extract_module_docstring_def)

lemma fallback_scan:
  assumes "generate_tokens py src = Inr (yield_all ts g)"
    and "\<forall>t \<in> set ts. is_trivia (tok_type t)"
  shows "extract_module_docstring_fallback py src = scan_tokens (literal_eval py) g"
  using assms by (simp add: extract_module_docstring_fallback_def scan_yield_all)

lemma quote_not_space: "\<not> is_space 34" "\<not> is_space 39"
  by (simp_all add: is_space_def)

lemma get_docstring_None:
  "(\<forall>v rest. body \<noteq> Expr (Constant (PyStr v)) # rest) \<Longrightarrow> get_docstring body = None"
  by (cases body rule: get_docstring.cases) auto

lemma strip_nl_spec:
  "\<exists>a b. v = a @ strip_nl v @ b \<and> set a \<subseteq> {LF} \<and> set b \<subseteq> {LF}"
proof -
  define P where "P = (\<lambda>c. c = LF)"
  define m where "m = dropWhile P v"
  have 1: "v = takeWhile P v @ m" by (simp add: m_def)
  have "rev (takeWhile P (rev m) @ dropWhile P (rev m)) = rev (rev m)"
    by (simp only: takeWhile_dropWhile_id)
  then have 2: "m = rev (dropWhile P (rev m)) @ rev (takeWhile P (rev m))"
    by (simp only: rev_append rev_rev_ident)
  have 3: "strip_nl v = rev (dropWhile P (rev m))" by (simp add: strip_nl_def P_def m_def)
  have "v = takeWhile P v @ strip_nl v @ rev (takeWhile P (rev m))"
    using 1 2 3 by simp
  moreover have "set (takeWhile P v) \<subseteq> {LF}"
    by (auto simp: P_def dest: set_takeWhileD)
  moreover have "set (rev (takeWhile P (rev m))) \<subseteq> {LF}"
    by (auto simp: P_def dest: set_takeWhileD)
  ultimately show ?thesis by blast
qed

lemma strip_nl_ends:
  "strip_nl v = [] \<or> (hd (strip_nl v) \<noteq> LF \<and> last (strip_nl v) \<noteq> LF)"
proof (cases "strip_nl v = []")
  case True
  then show ?thesis by simp
next
  case False
  define P where "P = (\<lambda>c. c = LF)"
  define m where "m = dropWhile P v"
  define r where "r = dropWhile P (rev m)"
  have s: "strip_nl v = rev r" by (simp add: strip_nl_def P_def m_def r_def)
  then have rne: "r \<noteq> []" using False by simp
  then have "\<not> P (hd r)" unfolding r_def using hd_dropWhile by blast
  then have l: "last (strip_nl v) \<noteq> LF" using s rne by (simp add: last_rev P_def)
  have "rev m = takeWhile P (rev m) @ r" by (simp add: r_def)
  then have "m = rev r @ rev (takeWhile P (rev m))"
    by (metis rev_append rev_rev_ident)
  then have "hd m = hd (rev r)" using rne by (metis hd_append2 rev_is_Nil_conv)
  moreover have "m \<noteq> []" using rne r_def by auto
  then have "\<not> P (hd m)" unfolding m_def using hd_dropWhile by blast
  ultimately have "hd (strip_nl v) \<noteq> LF" using s by (simp add: P_def)
  then show ?thesis using l by simp
qed

lemma extract_raises_aux:
  assumes "ast_parse py src = Inl e" and "generate_tokens py src = Inr (yield_all ts (Raise e'))"
    and "\<forall>t \<in> set ts. is_trivia (tok_type t)"
  shows "extract_module_docstring py src = Inl e'"
  using extract_fallback [OF assms(1)] fallback_scan [OF assms(2,3)] by simp

text \<open>
  Claim C1 says that the extractor never raises, also when tokenization fails while the
  tokens are produced. The code does raise there: \<open>generate_tokens\<close> only builds a
  generator, the \<open>try\<close> around it ends before the first token is asked for, and the
  loop that asks for the tokens is unguarded. On \<open>unterminated\<close> (three double quotes and
  \<open>abc\<close>) the parser raises \<open>SyntaxError\<close>, the fallback starts, and the generator
  raises \<open>TokenError\<close> at its first step: the exception reaches the caller.
\<close>

theorem extract_raises_on_tokenize_error:
  "extract_module_docstring cpython_unterminated unterminated = Inl TokenError"
  by (simp add: extract_module_docstring_def extract_module_docstring_fallback_def
      cpython_unterminated_def)

text \<open>
  Claim C4, as the specification states it: whenever the parsed body starts with a string
  literal of value \<open>v\<close>, the result is \<open>Found\<close> of \<open>v\<close> without its leading and
  trailing newlines, and \<open>Missing\<close> only when that stripped value is empty. The code
  tests \<open>doc.strip()\<close>, so a literal of three spaces gives \<open>Missing\<close> although its
  newline-stripped value is not empty.
\<close>

theorem extract_blank_literal_missing:
  "\<not> (\<forall>py src v rest. ast_parse py src = Inr (Expr (Constant (PyStr v)) # rest) \<longrightarrow>
        extract_module_docstring py src
          = Inr (if strip_nl v = [] then None else Some (strip_nl v)))"
proof
  define py where "py = Pylib (\<lambda>s. Inr [Expr (Constant (PyStr (ascii ''   '')))])
     (\<lambda>s. Inr Done) (\<lambda>s. Inl ValueError)"
  assume "\<forall>py src v rest. ast_parse py src = Inr (Expr (Constant (PyStr v)) # rest) \<longrightarrow>
        extract_module_docstring py src
          = Inr (if strip_nl v = [] then None else Some (strip_nl v))"
  then have "ast_parse py [] = Inr (Expr (Constant (PyStr (ascii ''   ''))) # []) \<longrightarrow>
        extract_module_docstring py []
          = Inr (if strip_nl (ascii ''   '') = [] then None else Some (strip_nl (ascii ''   '')))"
    by blast
  moreover have "extract_module_docstring py [] = Inr None"
    by (simp add: py_def extract_module_docstring_def ascii_def strip_nl_def strip_def rstrip_def
        LF_def is_space_def)
  moreover have "strip_nl (ascii ''   '') = ascii ''   ''"
    by (simp add: ascii_def strip_nl_def LF_def)
  ultimately show False by (simp add: py_def ascii_def)
qed

text \<open>
  Claim C4, amended: when the source parses and the body starts with a standalone string
  literal of value \<open>v\<close>, the result is \<open>Found\<close> of \<open>v\<close> with only its leading and
  trailing newlines stripped if \<open>v\<close> holds a character that is not whitespace, and
  \<open>Missing\<close> if \<open>v\<close> is empty or whitespace only; when the body has no leading
  string literal the result is \<open>Missing\<close>. (\<open>strip_nl_spec\<close> and \<open>strip_nl_ends\<close> say
  what stripping the newlines is.)
\<close>

theorem extract_parsed:
  assumes "ast_parse py src = Inr body"
  shows "(\<forall>v rest. body = Expr (Constant (PyStr v)) # rest \<longrightarrow>
            extract_module_docstring py src
              = Inr (if (\<exists>c \<in> set v. \<not> is_space c) then Some (strip_nl v) else None)) \<and>
         ((\<forall>v rest. body \<noteq> Expr (Constant (PyStr v)) # rest) \<longrightarrow>
            extract_module_docstring py src = Inr None)"
proof (intro conjI allI impI)
  fix v rest
  assume "body = Expr (Constant (PyStr v)) # rest"
  then show "extract_module_docstring py src
      = Inr (if (\<exists>c \<in> set v. \<not> is_space c) then Some (strip_nl v) else None)"
    using assms blank_test [of v] by (simp add: extract_module_docstring_def Let_def)
next
  assume "\<forall>v rest. body \<noteq> Expr (Constant (PyStr v)) # rest"
  then have "get_docstring body = None" by (rule get_docstring_None)
  then show "extract_module_docstring py src = Inr None"
    using assms by (simp add: extract_module_docstring_def)
qed

theorem extract_parsed_witness:
  "extract_module_docstring
      (Pylib (\<lambda>s. Inr [Expr (Constant (PyStr (LF # ascii '' computes totals '' @ [LF]))), OtherStmt])
         (\<lambda>s. Inr Done) (\<lambda>s. Inl ValueError)) []
     = Inr (Some (ascii '' computes totals '')) \<and>
   extract_module_docstring
      (Pylib (\<lambda>s. Inr [OtherStmt, Expr (Constant (PyStr (ascii ''late'')))])
         (\<lambda>s. Inr Done) (\<lambda>s. Inl ValueError)) []
     = Inr None"
proof -
  define py1 where "py1 = Pylib
      (\<lambda>s::pystr. Inr [Expr (Constant (PyStr (LF # ascii '' computes totals '' @ [LF]))), OtherStmt])
      (\<lambda>s. Inr Done) (\<lambda>s. Inl ValueError)"
  define py2 where "py2 = Pylib
      (\<lambda>s::pystr. Inr [OtherStmt, Expr (Constant (PyStr (ascii ''late'')))])
      (\<lambda>s. Inr Done) (\<lambda>s. Inl ValueError)"
  have p1: "ast_parse py1 [] = Inr [Expr (Constant (PyStr (LF # ascii '' computes totals '' @ [LF]))), OtherStmt]"
    by (simp add: py1_def)
  have p2: "ast_parse py2 [] = Inr [OtherStmt, Expr (Constant (PyStr (ascii ''late'')))]"
    by (simp add: py2_def)
  have ns: "\<exists>c \<in> set (LF # ascii '' computes totals '' @ [LF]). \<not> is_space c"
    by (simp add: ascii_def is_space_def LF_def)
  have sn: "strip_nl (LF # ascii '' computes totals '' @ [LF]) = ascii '' computes totals ''"
    by (simp add: strip_nl_def ascii_def LF_def)
  have "extract_module_docstring py1 [] = Inr (Some (ascii '' computes totals ''))"
    using extract_parsed [OF p1] ns sn by simp
  moreover have "extract_module_docstring py2 [] = Inr None"
    using extract_parsed [OF p2] by simp
  ultimately show ?thesis by (simp add: py1_def py2_def)
qed

text \<open>
  Claim C5: in the token-fallback tier (the parser has raised), after the skipped tokens
  (encoding, blank line, line end, comment, indent, dedent) only the first token counts:
  the result is fixed by that token alone, whatever the generator would do after it.
  If it is not a string token the result is \<open>Missing\<close>. If it is a string token whose
  literal cannot be decoded, the result is the raw token text with its leading and
  trailing newlines stripped (a string token holds its quote characters, so its text is
  never blank; for a blank text the result would be \<open>Missing\<close>). If its literal decodes
  to a text, the result is that text with its leading and trailing newlines stripped, or
  \<open>Missing\<close> when the text is blank; if it decodes to anything else, \<open>Missing\<close>. If the
  generator ends before any such token, the result is \<open>Missing\<close>.
\<close>

theorem fallback_first_substantive_token:
  assumes "ast_parse py src = Inl e0"
    and "generate_tokens py src = Inr (yield_all ts g)"
    and "\<forall>t \<in> set ts. is_trivia (tok_type t)"
  shows "(\<forall>tok rest. g = Yield tok rest \<and> \<not> is_trivia (tok_type tok) \<and> tok_type tok \<noteq> STRING
            \<longrightarrow> extract_module_docstring py src = Inr None) \<and>
         (\<forall>tok rest e. g = Yield tok rest \<and> tok_type tok = STRING
              \<and> literal_eval py (tok_string tok) = Inl e
            \<longrightarrow> extract_module_docstring py src
                  = Inr (if \<exists>c \<in> set (tok_string tok). \<not> is_space c
                         then Some (strip_nl (tok_string tok)) else None)) \<and>
         (\<forall>tok rest e. g = Yield tok rest \<and> tok_type tok = STRING
              \<and> literal_eval py (tok_string tok) = Inl e
              \<and> (34 \<in> set (tok_string tok) \<or> 39 \<in> set (tok_string tok))
            \<longrightarrow> extract_module_docstring py src = Inr (Some (strip_nl (tok_string tok)))) \<and>
         (\<forall>tok rest v. g = Yield tok rest \<and> tok_type tok = STRING
              \<and> literal_eval py (tok_string tok) = Inr (PyStr v)
            \<longrightarrow> extract_module_docstring py src
                  = Inr (if \<exists>c \<in> set v. \<not> is_space c then Some (strip_nl v) else None)) \<and>
         (\<forall>tok rest val. g = Yield tok rest \<and> tok_type tok = STRING
              \<and> literal_eval py (tok_string tok) = Inr val \<and> (\<forall>v. val \<noteq> PyStr v)
            \<longrightarrow> extract_module_docstring py src = Inr None) \<and>
         (g = Done \<longrightarrow> extract_module_docstring py src = Inr None)"
proof -
  have scan: "extract_module_docstring py src = scan_tokens (literal_eval py) g"
    using extract_fallback [OF assms(1)] fallback_scan [OF assms(2,3)] by simp
  have a: "extract_module_docstring py src = Inr None"
    if "g = Yield tok rest" "\<not> is_trivia (tok_type tok)" "tok_type tok \<noteq> STRING" for tok rest
    using that scan by simp
  have b: "extract_module_docstring py src
      = Inr (if \<exists>c \<in> set (tok_string tok). \<not> is_space c
             then Some (strip_nl (tok_string tok)) else None)"
    if "g = Yield tok rest" "tok_type tok = STRING" "literal_eval py (tok_string tok) = Inl e"
    for tok rest e
    using that scan blank_test [of "tok_string tok"] by (simp add: is_trivia_def Let_def)
  have b': "extract_module_docstring py src = Inr (Some (strip_nl (tok_string tok)))"
    if "g = Yield tok rest" "tok_type tok = STRING" "literal_eval py (tok_string tok) = Inl e"
      "34 \<in> set (tok_string tok) \<or> 39 \<in> set (tok_string tok)" for tok rest e
  proof -
    have "\<exists>c \<in> set (tok_string tok). \<not> is_space c" using that(4) quote_not_space by blast
    then show ?thesis using b [OF that(1,2,3)] by simp
  qed
  have c: "extract_module_docstring py src
      = Inr (if \<exists>c \<in> set v. \<not> is_space c then Some (strip_nl v) else None)"
    if "g = Yield tok rest" "tok_type tok = STRING" "literal_eval py (tok_string tok) = Inr (PyStr v)"
    for tok rest v
    using that scan blank_test [of v] by (simp add: is_trivia_def Let_def)
  have d: "extract_module_docstring py src = Inr None"
    if "g = Yield tok rest" "tok_type tok = STRING" "literal_eval py (tok_string tok) = Inr val"
      "\<forall>v. val \<noteq> PyStr v" for tok rest val
    using that scan by (cases val) (simp_all add: is_trivia_def)
  have e: "extract_module_docstring py src = Inr None" if "g = Done"
    using that scan by simp
  show ?thesis
    apply (intro conjI allI impI)
    subgoal for tok rest using a by blast
    subgoal for tok rest e using b by blast
    subgoal for tok rest e using b' by blast
    subgoal for tok rest v using c by blast
    subgoal for tok rest val using d by blast
    subgoal using e by blast
    done
qed

theorem fallback_first_substantive_token_witness:
  "extract_module_docstring
     (Pylib (\<lambda>s. Inl SyntaxError)
        (\<lambda>s. Inr (Yield (Token COMMENT (ascii ''# c'')) (Yield (Token NL [LF])
           (Yield (Token NAME (ascii ''x'')) (Yield (Token STRING [39, 97, 39]) (Raise TokenError))))))
        (\<lambda>s. Inr (PyStr (ascii ''a'')))) []
     = Inr None \<and>
   extract_module_docstring
     (Pylib (\<lambda>s. Inl SyntaxError)
        (\<lambda>s. Inr (Yield (Token COMMENT (ascii ''# c'')) (Yield (Token NL [LF])
           (Yield (Token STRING [39, 92, 120, 39]) (Yield (Token OP (ascii ''('')) (Raise TokenError))))))
        (\<lambda>s. Inl SyntaxError)) []
     = Inr (Some [39, 92, 120, 39]) \<and>
   extract_module_docstring
     (Pylib (\<lambda>s. Inl SyntaxError)
        (\<lambda>s. Inr (Yield (Token COMMENT (ascii ''# c'')) (Yield (Token NL [LF]) Done)))
        (\<lambda>s. Inl SyntaxError)) []
     = Inr None \<and>
   extract_module_docstring
     (Pylib (\<lambda>s. Inl SyntaxError)
        (\<lambda>s. Inr (Yield (Token STRING [39, 32, 39])
           (Yield (Token STRING [39, 97, 39]) (Yield (Token OP (ascii ''('')) (Raise TokenError)))))
        (\<lambda>s. if s = [39, 32, 39] then Inr (PyStr (ascii '' '')) else Inr (PyStr (ascii ''a'')))) []
     = Inr None \<and>
   extract_module_docstring
     (Pylib (\<lambda>s. Inl SyntaxError)
        (\<lambda>s. Inr (Yield (Token STRING [39, 100, 111, 99, 39])
           (Yield (Token OP (ascii ''('')) (Raise TokenError))))
        (\<lambda>s. Inr (PyStr (ascii ''doc'')))) []
     = Inr (Some (ascii ''doc''))"
proof -
  define ts where "ts = [Token COMMENT (ascii ''# c''), Token NL [LF]]"
  define g1 where "g1 = Yield (Token NAME (ascii ''x'')) (Yield (Token STRING [39, 97, 39]) (Raise TokenError))"
  define g2 where "g2 = Yield (Token STRING [39, 92, 120, 39]) (Yield (Token OP (ascii ''('')) (Raise TokenError))"
  define g4 where "g4 = Yield (Token STRING [39, 32, 39])
           (Yield (Token STRING [39, 97, 39]) (Yield (Token OP (ascii ''('')) (Raise TokenError)))"
  define g5 where "g5 = Yield (Token STRING [39, 100, 111, 99, 39])
           (Yield (Token OP (ascii ''('')) (Raise TokenError))"
  define py1 where "py1 = Pylib (\<lambda>s::pystr. Inl SyntaxError) (\<lambda>s::pystr. Inr (yield_all ts g1))
      (\<lambda>s::pystr. Inr (PyStr (ascii ''a'')))"
  define py2 where "py2 = Pylib (\<lambda>s::pystr. Inl SyntaxError) (\<lambda>s::pystr. Inr (yield_all ts g2))
      (\<lambda>s::pystr. Inl SyntaxError)"
  define py3 where "py3 = Pylib (\<lambda>s::pystr. Inl SyntaxError) (\<lambda>s::pystr. Inr (yield_all ts Done))
      (\<lambda>s::pystr. Inl SyntaxError)"
  define py4 where "py4 = Pylib (\<lambda>s::pystr. Inl SyntaxError) (\<lambda>s::pystr. Inr (yield_all [] g4))
      (\<lambda>s::pystr. if s = [39, 32, 39] then Inr (PyStr (ascii '' '')) else Inr (PyStr (ascii ''a'')))"
  define py5 where "py5 = Pylib (\<lambda>s::pystr. Inl SyntaxError) (\<lambda>s::pystr. Inr (yield_all [] g5))
      (\<lambda>s::pystr. Inr (PyStr (ascii ''doc'')))"
  have tr: "\<forall>t \<in> set ts. is_trivia (tok_type t)" by (simp add: ts_def is_trivia_def)
  have 1: "extract_module_docstring py1 [] = Inr None"
    using fallback_first_substantive_token [of py1 "[]" SyntaxError ts g1] tr
    by (simp add: py1_def g1_def is_trivia_def)
  have 2: "extract_module_docstring py2 [] = Inr (Some [39, 92, 120, 39])"
    using fallback_first_substantive_token [of py2 "[]" SyntaxError ts g2] tr
    by (simp add: py2_def g2_def strip_nl_def LF_def is_space_def)
  have 3: "extract_module_docstring py3 [] = Inr None"
    using fallback_first_substantive_token [of py3 "[]" SyntaxError ts Done] tr
    by (simp add: py3_def)
  have 4: "extract_module_docstring py4 [] = Inr None"
    using fallback_first_substantive_token [of py4 "[]" SyntaxError "[]" g4]
    by (simp add: py4_def g4_def ascii_def is_space_def)
  have 5: "extract_module_docstring py5 [] = Inr (Some (ascii ''doc''))"
    using fallback_first_substantive_token [of py5 "[]" SyntaxError "[]" g5]
    by (simp add: py5_def g5_def ascii_def is_space_def strip_nl_def LF_def)
  show ?thesis using 1 2 3 4 5
    by (simp add: py1_def py2_def py3_def py4_def py5_def ts_def g1_def g2_def g4_def g5_def)
qed

text \<open>
  Claim C10: in the token-fallback tier, when the first substantive token is a string token
  whose literal decodes to a value that is not text (a bytes literal), the result is
  \<open>Missing\<close>: neither the decoded value nor the raw token text is returned.
\<close>

theorem fallback_non_text_literal:
  assumes "ast_parse py src = Inl e0"
    and "generate_tokens py src = Inr (yield_all ts (Yield tok rest))"
    and "\<forall>t \<in> set ts. is_trivia (tok_type t)"
    and "tok_type tok = STRING"
    and "literal_eval py (tok_string tok) = Inr val"
    and "\<forall>v. val \<noteq> PyStr v"
  shows "extract_module_docstring py src = Inr None"
proof -
  have "extract_module_docstring py src = scan_tokens (literal_eval py) (Yield tok rest)"
    using extract_fallback [OF assms(1)] fallback_scan [OF assms(2,3)] by simp
  then show ?thesis using assms(4,5,6) by (cases val) (simp_all add: is_trivia_def)
qed

theorem fallback_non_text_literal_witness:
  "extract_module_docstring
     (Pylib (\<lambda>s. Inl SyntaxError)
        (\<lambda>s. Inr (Yield (Token STRING (ascii ''b'' @ [34] @ ascii ''data'' @ [34]))
           (Yield (Token OP (ascii ''('')) (Raise TokenError))))
        (\<lambda>s. Inr (PyBytes (ascii ''data'')))) []
     = Inr None"
proof -
  define tok where "tok = Token STRING (ascii ''b'' @ [34] @ ascii ''data'' @ [34])"
  define rest where "rest = Yield (Token OP (ascii ''('')) (Raise TokenError)"
  define py where "py = Pylib (\<lambda>s::pystr. Inl SyntaxError)
      (\<lambda>s::pystr. Inr (yield_all [] (Yield tok rest))) (\<lambda>s::pystr. Inr (PyBytes (ascii ''data'')))"
  have "extract_module_docstring py [] = Inr None"
    using fallback_non_text_literal [of py "[]" SyntaxError "[]" tok rest "PyBytes (ascii ''data'')"]
    by (simp add: py_def tok_def)
  then show ?thesis by (simp add: py_def tok_def rest_def)
qed

section \<open>Properties of the Exclusion Filter\<close>




















section \<open>Properties of the Tree Renderer\<close>

lemma is_dir_directory: "is_dir n = Inr d \<Longrightarrow> d = directory n"
  by (cases n) (auto simp: directory_def)

lemma is_file_regular: "is_file n = Inr f \<Longrightarrow> f = regular n"
  by (cases n) (auto simp: regular_def)

lemma is_file_defined: "is_dir n = Inr d \<Longrightarrow> is_file n = Inr (regular n)"
  by (cases n) (auto simp: regular_def)


lemma should_skip_excluded:
  "\<exists>part \<in> set rel. part \<in> exclude_dirs \<Longrightarrow>
   should_skip fnmatchcase rel d exclude_dirs exclude_globs = Inr True"
  by (simp add: should_skip_def)

lemma should_skip_False:
  "should_skip fnmatchcase rel d exclude_dirs exclude_globs = Inr False \<Longrightarrow>
   set rel \<inter> exclude_dirs = {}"
  by (auto simp: should_skip_def split: if_splits)

lemma filter_entries_Cons:
  assumes "filter_entries fnmatchcase rel xd xg (p # entries) = Inr filtered"
  obtains d skip f where "is_dir (snd p) = Inr d"
    and "should_skip fnmatchcase (rel @ [fst p]) d xd xg = Inr skip"
    and "filter_entries fnmatchcase rel xd xg entries = Inr f"
    and "filtered = (if skip then f else p # f)"
  using assms by (auto split: sum.splits)

lemma filter_entries_kept:
  "filter_entries fnmatchcase rel xd xg entries = Inr filtered \<Longrightarrow>
   set filtered \<subseteq> set entries \<and>
   (\<forall>p \<in> set filtered. \<exists>d. is_dir (snd p) = Inr d \<and>
        should_skip fnmatchcase (rel @ [fst p]) d xd xg = Inr False)"
proof (induction entries arbitrary: filtered)
  case Nil
  then show ?case by simp
next
  case (Cons p entries)
  from Cons.prems obtain d skip f where
    d: "is_dir (snd p) = Inr d"
    and s: "should_skip fnmatchcase (rel @ [fst p]) d xd xg = Inr skip"
    and f: "filter_entries fnmatchcase rel xd xg entries = Inr f"
    and r: "filtered = (if skip then f else p # f)"
    by (rule filter_entries_Cons)
  have ih: "set f \<subseteq> set entries \<and>
      (\<forall>p \<in> set f. \<exists>d. is_dir (snd p) = Inr d \<and>
          should_skip fnmatchcase (rel @ [fst p]) d xd xg = Inr False)"
    using Cons.IH [OF f] .
  show ?case
  proof (cases skip)
    case True
    then show ?thesis using ih r by auto
  next
    case False
    then show ?thesis using ih r d s by auto
  qed
qed


lemma sort_keys_Inr:
  "sort_keys lower ps = Inr keyed \<Longrightarrow> keyed = map (\<lambda>p. (sort_key_of lower p, p)) ps"
proof (induction ps arbitrary: keyed)
  case Nil
  then show ?case by simp
next
  case (Cons p ps)
  from Cons.prems obtain f ks where
    f: "is_file (snd p) = Inr f" and k: "sort_keys lower ps = Inr ks"
    and r: "keyed = ((f, lower (fst p)), p) # ks"
    by (auto split: sum.splits)
  show ?case using Cons.IH [OF k] r is_file_regular [OF f] by (simp add: sort_key_of_def)
qed

lemma insort_key_decorated:
  "insort_key fst (k x, x) (map (\<lambda>p. (k p, p)) ys) = map (\<lambda>p. (k p, p)) (insort_key k x ys)"
  by (induction ys) auto

lemma sort_key_decorated:
  "sort_key fst (map (\<lambda>p. (k p, p)) xs) = map (\<lambda>p. (k p, p)) (sort_key k xs)"
  by (induction xs) (simp_all add: insort_key_decorated)

lemma sort_entries_Inr:
  assumes "sort_entries lower filtered = Inr s"
  shows "s = sort_key (sort_key_of lower) filtered"
proof -
  obtain keyed where k: "sort_keys lower filtered = Inr keyed"
    and s: "s = map snd (sort_key fst keyed)"
    using assms by (auto simp: sort_entries_def split: sum.splits)
  have "keyed = map (\<lambda>p. (sort_key_of lower p, p)) filtered" using k by (rule sort_keys_Inr)
  then show ?thesis using s by (simp add: sort_key_decorated comp_def)
qed

lemma sort_keys_defined:
  "\<forall>p \<in> set ps. \<exists>d. is_dir (snd p) = Inr d \<Longrightarrow> \<exists>keyed. sort_keys lower ps = Inr keyed"
proof (induction ps)
  case Nil
  then show ?case by simp
next
  case (Cons p ps)
  then obtain d where "is_dir (snd p) = Inr d" by auto
  then have "is_file (snd p) = Inr (regular (snd p))" by (rule is_file_defined)
  moreover obtain ks where "sort_keys lower ps = Inr ks" using Cons by auto
  ultimately show ?case by simp
qed

lemma sort_entries_defined:
  assumes "\<forall>p \<in> set ps. \<exists>d. is_dir (snd p) = Inr d"
  shows "sort_entries lower ps = Inr (sort_key (sort_key_of lower) ps)"
proof -
  obtain keyed where "sort_keys lower ps = Inr keyed"
    using sort_keys_defined [OF assms] by blast
  then obtain s where s: "sort_entries lower ps = Inr s" by (simp add: sort_entries_def)
  then show ?thesis using sort_entries_Inr by simp
qed



lemma kept_iff:
  "kept fnm xd xg rel p \<longleftrightarrow>
     (\<exists>d. is_dir (snd p) = Inr d \<and> should_skip fnm (rel @ [fst p]) d xd xg = Inr False)"
  by (auto simp: kept_def split: sum.splits)

lemma filter_entries_all_kept:
  "filter_entries fnm rel xd xg entries = Inr filtered \<Longrightarrow> \<forall>p \<in> set filtered. kept fnm xd xg rel p"
  using filter_entries_kept [of fnm rel xd xg entries filtered] by (simp add: kept_iff)

lemma set_sort_entries: "sort_entries lower filtered = Inr s \<Longrightarrow> set s = set filtered"
  using sort_entries_Inr [of lower filtered s] by simp

lemma emit_Cons:
  assumes "emit fnm lower md xd xg (p # rest) rel prefix depth = Inr out"
  obtains d inner more where "is_dir (snd p) = Inr d"
    and "(if d then walk fnm lower md xd xg (snd p) (rel @ [fst p])
                  (prefix @ (if rest = [] then ascii ''    '' else BAR)) (depth + 1)
          else Inr []) = Inr inner"
    and "emit fnm lower md xd xg rest rel prefix depth = Inr more"
    and "out = (Some (rel @ [fst p], snd p), entry_line prefix (rest = []) (fst p) d)
               # inner @ more"
proof -
  from assms obtain d where d: "is_dir (snd p) = Inr d"
    by (cases "is_dir (snd p)") (simp_all del: walk.simps)
  define sub where "sub = (if d then walk fnm lower md xd xg (snd p) (rel @ [fst p])
                  (prefix @ (if rest = [] then ascii ''    '' else BAR)) (depth + 1)
          else Inr [])"
  have eq: "emit fnm lower md xd xg (p # rest) rel prefix depth =
      (case sub of Inl e \<Rightarrow> Inl e
       | Inr inner \<Rightarrow> (case emit fnm lower md xd xg rest rel prefix depth of
            Inl e \<Rightarrow> Inl e
          | Inr more \<Rightarrow> Inr ((Some (rel @ [fst p], snd p), entry_line prefix (rest = []) (fst p) d)
                              # inner @ more)))"
    using d by (simp only: emit.simps sub_def sum.case)
  obtain inner more where "sub = Inr inner"
    and "emit fnm lower md xd xg rest rel prefix depth = Inr more"
    and "out = (Some (rel @ [fst p], snd p), entry_line prefix (rest = []) (fst p) d)
               # inner @ more"
    using assms unfolding eq by (auto split: sum.splits)
  then show ?thesis using that d unfolding sub_def by blast
qed

lemma walk_cases:
  assumes "walk fnm lower md xd xg node rel prefix depth = Inr out"
  obtains (stop) "md \<le> depth" "out = []"
  | (denied) "depth < md" "iterdir node = Inl PermissionError"
      "out = [(None, prefix @ CORNER @ ascii ''[permission denied]'')]"
  | (listed) entries filtered s where "depth < md" "iterdir node = Inr entries"
      "filter_entries fnm rel xd xg entries = Inr filtered"
      "sort_entries lower filtered = Inr s"
      "emit fnm lower md xd xg s rel prefix depth = Inr out"
proof (cases "md \<le> depth")
  case True
  then show ?thesis using assms stop by simp
next
  case False
  then have lt: "depth < md" by simp
  show ?thesis
  proof (cases "iterdir node")
    case (Inl e)
    then show ?thesis using assms False lt denied by (auto split: if_splits)
  next
    case (Inr entries)
    then show ?thesis using assms False lt listed by (auto split: sum.splits)
  qed
qed

lemma length_ext: "length (if b then ascii ''    '' else BAR) = 4"
  by (simp add: ascii_def BAR_def)

lemma walk_emit_lines:
  fixes I :: "pystr list \<Rightarrow> pystr \<Rightarrow> int \<Rightarrow> tree_line \<Rightarrow> bool"
  assumes H1: "\<And>rel prefix depth.
      I rel prefix depth (None, prefix @ CORNER @ ascii ''[permission denied]'')"
    and H2: "\<And>rel prefix depth p is_last d. depth < md \<Longrightarrow> is_dir (snd p) = Inr d \<Longrightarrow>
      should_skip fnm (rel @ [fst p]) d xd xg = Inr False \<Longrightarrow>
      I rel prefix depth (Some (rel @ [fst p], snd p), entry_line prefix is_last (fst p) d)"
    and H3: "\<And>rel prefix depth name ext line. length ext = 4 \<Longrightarrow> depth < md \<Longrightarrow>
      I (rel @ [name]) (prefix @ ext) (depth + 1) line \<Longrightarrow> I rel prefix depth line"
  shows "walk fnm lower md xd xg node rel prefix depth = Inr out \<Longrightarrow>
           \<forall>line \<in> set out. I rel prefix depth line"
    and "emit fnm lower md xd xg es rel prefix depth = Inr out \<Longrightarrow>
           \<forall>p \<in> set es. kept fnm xd xg rel p \<Longrightarrow> depth < md \<Longrightarrow>
           \<forall>line \<in> set out. I rel prefix depth line"
  using assms
proof (induction fnm lower md xd xg node rel prefix depth
    and fnm lower md xd xg es rel prefix depth
    arbitrary: out and out rule: walk_emit.induct)
  case (1 fnm lower md xd xg node rel prefix depth)
  note H1 = "1.prems"(2) and H2 = "1.prems"(3) and H3 = "1.prems"(4)
  from "1.prems"(1) show ?case
  proof (cases rule: walk_cases)
    case stop
    then show ?thesis by simp
  next
    case denied
    have "I rel prefix depth (None, prefix @ CORNER @ ascii ''[permission denied]'')"
      by (rule H1)
    then show ?thesis by (simp add: denied(3))
  next
    case (listed entries filtered s)
    have k: "\<forall>p \<in> set s. kept fnm xd xg rel p"
      using filter_entries_all_kept [OF listed(3)] set_sort_entries [OF listed(4)] by simp
    have n: "\<not> md \<le> depth" using listed(1) by simp
    show ?thesis by (rule "1.IH" [OF n listed(2,3,4,5) k listed(1) H1 H2 H3])
  qed
next
  case (2 fnm lower md xd xg rel prefix depth)
  from "2.prems"(1) show ?case by simp
next
  case (3 fnm lower md xd xg p rest rel prefix depth)
  note H1 = "3.prems"(4) and H2 = "3.prems"(5) and H3 = "3.prems"(6)
  from "3.prems"(1) obtain d inner more where
    d: "is_dir (snd p) = Inr d"
    and b: "(if d then walk fnm lower md xd xg (snd p) (rel @ [fst p])
                  (prefix @ (if rest = [] then ascii ''    '' else BAR)) (depth + 1)
          else Inr []) = Inr inner"
    and m: "emit fnm lower md xd xg rest rel prefix depth = Inr more"
    and o: "out = (Some (rel @ [fst p], snd p), entry_line prefix (rest = []) (fst p) d)
               # inner @ more"
    by (rule emit_Cons)
  have k: "should_skip fnm (rel @ [fst p]) d xd xg = Inr False"
    using "3.prems"(2) d by (simp add: kept_def)
  have 1: "I rel prefix depth (Some (rel @ [fst p], snd p), entry_line prefix (rest = []) (fst p) d)"
    by (rule H2 [OF "3.prems"(3) d k])
  have 2: "\<forall>line \<in> set inner. I rel prefix depth line"
  proof (cases d)
    case True
    then have w: "walk fnm lower md xd xg (snd p) (rel @ [fst p])
        (prefix @ (if rest = [] then ascii ''    '' else BAR)) (depth + 1) = Inr inner"
      using b by simp
    have c: "\<forall>line \<in> set inner. I (rel @ [fst p])
        (prefix @ (if rest = [] then ascii ''    '' else BAR)) (depth + 1) line"
      by (rule "3.IH"(1) [OF d True w H1 H2 H3])
    show ?thesis
    proof
      fix line assume "line \<in> set inner"
      then have "I (rel @ [fst p])
        (prefix @ (if rest = [] then ascii ''    '' else BAR)) (depth + 1) line"
        using c by blast
      then show "I rel prefix depth line"
        by (rule H3 [OF length_ext "3.prems"(3)])
    qed
  next
    case False
    then have "inner = []" using b by simp
    then show ?thesis by simp
  qed
  have k': "\<forall>p \<in> set rest. kept fnm xd xg rel p" using "3.prems"(2) by simp
  have 3: "\<forall>line \<in> set more. I rel prefix depth line"
    by (rule "3.IH"(2) [OF d b m k' "3.prems"(3) H1 H2 H3])
  show ?case using 1 2 3 by (auto simp: o)
qed

lemma entry_labels_simps:
  "entry_labels [] = {}"
  "entry_labels ((Some x, l) # out) = insert x (entry_labels out)"
  "entry_labels ((None, l) # out) = entry_labels out"
  "entry_labels (xs @ ys) = entry_labels xs \<union> entry_labels ys"
  by (auto simp: entry_labels_def)

lemma entry_paths_simps:
  "entry_paths [] = {}"
  "entry_paths ((Some (q, n), l) # out) = insert q (entry_paths out)"
  "entry_paths ((None, l) # out) = entry_paths out"
  "entry_paths (xs @ ys) = entry_paths xs \<union> entry_paths ys"
  by (auto simp: entry_paths_def entry_labels_simps)

lemma below_child:
  assumes "below X (levels - 1) (rel @ [n]) q"
  shows "below X levels rel q"
proof -
  have t: "take (Suc (length rel)) q = rel @ [n]" and l: "Suc (length rel) < length q"
    using assms by (simp_all add: below_def)
  have "take (length rel) (take (Suc (length rel)) q) = take (length rel) (rel @ [n])"
    using t by simp
  then have "take (length rel) q = rel" by (simp add: min_def)
  then show ?thesis using assms l by (simp add: below_def)
qed

lemma below_child_depth:
  assumes "below X (md - (depth + 1)) (rel @ [n]) q"
  shows "below X (md - depth) rel q"
proof -
  have "md - (depth + 1) = (md - depth) - 1" by simp
  then have "below X ((md - depth) - 1) (rel @ [n]) q" using assms by (simp only:)
  then show ?thesis by (rule below_child)
qed

lemma shown_child:
  assumes "length ext = 4" and "shown (length (prefix @ ext)) (length (rel @ [name])) line"
  shows "shown (length prefix) (length rel) line"
proof (cases "fst line")
  case None
  then show ?thesis using assms(2) by (simp add: shown_def)
next
  case (Some x)
  obtain q n where x: "x = (q, n)" by (cases x)
  from assms(2) Some x obtain pfx is_last d where
    l: "Suc (length rel) < length q" and d: "is_dir n = Inr d"
    and p: "length pfx = length prefix + length ext + 4 * (length q - Suc (Suc (length rel)))"
    and t: "snd line = entry_line pfx is_last (last q) d"
    by (auto simp: shown_def)
  have "length pfx = length prefix + 4 * (length q - Suc (length rel))"
    using p l assms(1) by simp
  then show ?thesis using Some x l d t by (auto simp: shown_def)
qed

lemma walk_shown:
  assumes "walk fnm lower md xd xg node rel prefix depth = Inr out"
  shows "\<forall>line \<in> set out. shown (length prefix) (length rel) line"
proof (rule walk_emit_lines(1) [where I = "\<lambda>rel prefix depth line. shown (length prefix) (length rel) line",
      OF _ _ _ assms])
  fix rel :: "pystr list" and prefix :: pystr and depth :: int
  show "shown (length prefix) (length rel)
      (None :: (pystr list \<times> fsnode) option, prefix @ CORNER @ ascii ''[permission denied]'')"
    by (auto simp: shown_def)
next
  fix rel :: "pystr list" and prefix :: pystr and depth :: int and p :: "pystr \<times> fsnode"
    and is_last d
  assume "is_dir (snd p) = Inr d"
  then show "shown (length prefix) (length rel)
      (Some (rel @ [fst p], snd p), entry_line prefix is_last (fst p) d)"
    by (auto simp: shown_def)
next
  fix rel :: "pystr list" and prefix ext :: pystr and depth :: int and name line
  assume "length ext = 4" "shown (length (prefix @ ext)) (length (rel @ [name])) line"
  then show "shown (length prefix) (length rel) line" by (rule shown_child)
qed

lemma walk_below:
  assumes "walk fnm lower md xd xg node rel prefix depth = Inr out"
  shows "\<forall>q \<in> entry_paths out. below xd (md - depth) rel q"
proof -
  define I where "I = (\<lambda>(rel :: pystr list) (prefix :: pystr) (depth :: int) (line :: tree_line).
      case fst line of None \<Rightarrow> True | Some (q, n) \<Rightarrow> below xd (md - depth) rel q)"
  have "\<forall>line \<in> set out. I rel prefix depth line"
  proof (rule walk_emit_lines(1) [where I = I, OF _ _ _ assms])
    fix rel :: "pystr list" and prefix :: pystr and depth :: int
    show "I rel prefix depth (None, prefix @ CORNER @ ascii ''[permission denied]'')"
      by (simp add: I_def)
  next
    fix rel :: "pystr list" and prefix :: pystr and depth :: int and p :: "pystr \<times> fsnode"
      and is_last d
    assume "depth < md" "should_skip fnm (rel @ [fst p]) d xd xg = Inr False"
    then show "I rel prefix depth (Some (rel @ [fst p], snd p), entry_line prefix is_last (fst p) d)"
      using should_skip_False [of fnm "rel @ [fst p]" d xd xg]
      by (simp add: I_def below_def)
  next
    fix rel :: "pystr list" and prefix ext :: pystr and depth :: int and name line
    assume "I (rel @ [name]) (prefix @ ext) (depth + 1) line"
    then show "I rel prefix depth line"
      using below_child_depth [of xd md depth rel name]
      by (auto simp: I_def split: option.splits)
  qed
  then show ?thesis
    by (auto simp: I_def entry_paths_def entry_labels_def split: option.splits)
qed

lemma walk_stops: "max_depth \<le> depth \<Longrightarrow>
  walk fnm lower max_depth exclude_dirs exclude_globs dir_path rel prefix depth = Inr []"
  by simp

lemma emit_last_level:
  "md \<le> depth + 1 \<Longrightarrow> \<forall>p \<in> set es. \<exists>d. is_dir (snd p) = Inr d \<Longrightarrow>
   emit fnm lower md xd xg es rel prefix depth = Inr (level_lines rel prefix es)"
proof (induction es)
  case Nil
  then show ?case by simp
next
  case (Cons p es)
  then obtain d where d: "is_dir (snd p) = Inr d" by auto
  have "emit fnm lower md xd xg es rel prefix depth = Inr (level_lines rel prefix es)"
    using Cons by simp
  then show ?case using d is_dir_directory [OF d] Cons.prems(1) by simp
qed

lemma build_tree_lines_walk:
  assumes "build_tree_lines fnm lower label root md xd xg = Inr lines"
  obtains out where "walk fnm lower md xd xg root [] [] 0 = Inr out"
    and "lines = label # map snd out"
  using assms by (auto simp: build_tree_lines_def split: sum.splits)

lemma build_tree_lines_labelled:
  assumes "build_tree_lines fnm lower label root md xd xg = Inr lines"
  shows "\<exists>out. walk fnm lower md xd xg root [] [] 0 = Inr out \<and> lines = label # map snd out \<and>
           (\<forall>line \<in> set out. shown 0 0 line) \<and>
           (\<forall>q \<in> entry_paths out. set q \<inter> xd = {} \<and> int (length q) \<le> md)"
proof -
  obtain out where w: "walk fnm lower md xd xg root [] [] 0 = Inr out"
    and l: "lines = label # map snd out"
    using assms by (rule build_tree_lines_walk)
  have s: "\<forall>line \<in> set out. shown 0 0 line" using walk_shown [OF w] by simp
  have "\<forall>q \<in> entry_paths out. below xd (md - 0) [] q" by (rule walk_below [OF w])
  then have b: "\<forall>q \<in> entry_paths out. set q \<inter> xd = {} \<and> int (length q) \<le> md"
    by (simp add: below_def)
  show ?thesis using w l s b by blast
qed

lemma build_tree_lines_depth_one:
  "build_tree_lines fnm lower label root 1 xd xg =
     (case iterdir root of
        Inl e \<Rightarrow>
          if e = PermissionError then Inr [label, CORNER @ ascii ''[permission denied]'']
          else Inl e
      | Inr entries \<Rightarrow>
          (case filter_entries fnm [] xd xg entries of
             Inl e \<Rightarrow> Inl e
           | Inr filtered \<Rightarrow>
               Inr (label # map snd (level_lines [] [] (sort_key (sort_key_of lower) filtered)))))"
proof (cases "iterdir root")
  case (Inl e)
  then show ?thesis by (simp add: build_tree_lines_def)
next
  case (Inr entries)
  show ?thesis
  proof (cases "filter_entries fnm [] xd xg entries")
    case (Inl e)
    then show ?thesis using Inr by (simp add: build_tree_lines_def)
  next
    case f: (Inr filtered)
    have st: "\<forall>p \<in> set filtered. \<exists>d. is_dir (snd p) = Inr d"
      using filter_entries_kept [OF f] by blast
    have so: "sort_entries lower filtered = Inr (sort_key (sort_key_of lower) filtered)"
      using st by (rule sort_entries_defined)
    have "\<forall>p \<in> set (sort_key (sort_key_of lower) filtered). \<exists>d. is_dir (snd p) = Inr d"
      using st by simp
    then have "emit fnm lower 1 xd xg (sort_key (sort_key_of lower) filtered) [] [] 0
        = Inr (level_lines [] [] (sort_key (sort_key_of lower) filtered))"
      using emit_last_level [of 1 0] by simp
    then show ?thesis using Inr f so by (simp add: build_tree_lines_def)
  qed
qed





lemma sib_le_None: "sib_le lower (None, l) b" "sib_le lower a (None, l)"
  by (auto simp: sib_le_def split: option.splits)




lemma filter_entries_no_rules:
  "\<forall>p \<in> set entries. \<exists>d. is_dir (snd p) = Inr d \<Longrightarrow>
   filter_entries fnm rel {} [] entries = Inr entries"
  by (induction entries) (auto simp: should_skip_def)







lemma nested_walk:
  "walk wildcard_match ascii_lower 6 {ascii ''node_modules''} [] nested_dir [] [] 0
     = Inr nested_out"
proof -
  have i: "walk wildcard_match ascii_lower 6 {ascii ''node_modules''} []
      (Dir [(ascii ''node_modules'', Dir [(ascii ''x.js'', File)]), (ascii ''a.py'', File)])
      [ascii ''src''] (ascii ''    '') 1
      = Inr [(Some ([ascii ''src'', ascii ''a.py''], File),
              ascii ''    '' @ CORNER @ ascii ''a.py'')]"
    by (simp add: should_skip_def sort_entries_def entry_line_def ascii_def)
  have f: "filter_entries wildcard_match [] {ascii ''node_modules''} []
      [(ascii ''src'',
          Dir [(ascii ''node_modules'', Dir [(ascii ''x.js'', File)]), (ascii ''a.py'', File)]),
       (ascii ''node_modules'', Dir [(ascii ''y.js'', File)])]
      = Inr [(ascii ''src'',
          Dir [(ascii ''node_modules'', Dir [(ascii ''x.js'', File)]), (ascii ''a.py'', File)])]"
    by (simp add: should_skip_def ascii_def)
  have s: "sort_entries ascii_lower [(ascii ''src'',
          Dir [(ascii ''node_modules'', Dir [(ascii ''x.js'', File)]), (ascii ''a.py'', File)])]
      = Inr [(ascii ''src'',
          Dir [(ascii ''node_modules'', Dir [(ascii ''x.js'', File)]), (ascii ''a.py'', File)])]"
    by (simp add: sort_entries_def)
  have e: "emit wildcard_match ascii_lower 6 {ascii ''node_modules''} []
      [(ascii ''src'',
          Dir [(ascii ''node_modules'', Dir [(ascii ''x.js'', File)]), (ascii ''a.py'', File)])]
      [] [] 0 = Inr nested_out"
    using i by (simp add: nested_out_def entry_line_def del: walk.simps)
      (simp add: ascii_def SLASH_def)
  show ?thesis
    using f s e by (simp add: nested_dir_def del: filter_entries.simps emit.simps)
qed

lemma build_tree_lines_texts:
  "build_tree_lines fnm lower label root md xd xg =
     (case texts (walk fnm lower md xd xg root [] [] 0) of
        Inl e \<Rightarrow> Inl e
      | Inr ts \<Rightarrow> Inr (label # ts))"
  by (simp add: build_tree_lines_def texts_def del: walk.simps split: sum.splits)

lemma texts_walk:
  "texts (walk fnm lower md xd xg node rel prefix depth) =
     (if md \<le> depth then Inr []
      else
        (case iterdir node of
           Inl e \<Rightarrow>
             (if e = PermissionError then Inr [prefix @ CORNER @ ascii ''[permission denied]'']
              else Inl e)
         | Inr entries \<Rightarrow>
             (case filter_entries fnm rel xd xg entries of
                Inl e \<Rightarrow> Inl e
              | Inr filtered \<Rightarrow>
                  (case sort_entries lower filtered of
                     Inl e \<Rightarrow> Inl e
                   | Inr s \<Rightarrow> texts (emit fnm lower md xd xg s rel prefix depth)))))"
  by (simp add: texts_def split: sum.splits)

lemma texts_emit_Nil: "texts (emit fnm lower md xd xg [] rel prefix depth) = Inr []"
  by (simp add: texts_def)

lemma texts_emit_Cons:
  "texts (emit fnm lower md xd xg (p # rest) rel prefix depth) =
     (case is_dir (snd p) of
        Inl e \<Rightarrow> Inl e
      | Inr d \<Rightarrow>
          (case texts (if d then walk fnm lower md xd xg (snd p) (rel @ [fst p])
                              (prefix @ (if rest = [] then ascii ''    '' else BAR)) (depth + 1)
                       else Inr []) of
             Inl e \<Rightarrow> Inl e
           | Inr inner \<Rightarrow>
               (case texts (emit fnm lower md xd xg rest rel prefix depth) of
                  Inl e \<Rightarrow> Inl e
                | Inr more \<Rightarrow> Inr (entry_line prefix (rest = []) (fst p) d # inner @ more))))"
  by (simp add: texts_def del: walk.simps split: sum.splits)

lemma filter_entries_map:
  assumes "\<And>p. fst (h p) = fst p \<and> is_dir (snd (h p)) = is_dir (snd p)"
  shows "filter_entries fnm rel xd xg (map h es) =
     (case filter_entries fnm rel xd xg es of Inl e \<Rightarrow> Inl e | Inr f \<Rightarrow> Inr (map h f))"
  by (induction es) (simp_all add: assms split: sum.splits)

lemma sort_keys_map:
  assumes "\<And>p. fst (h p) = fst p \<and> is_file (snd (h p)) = is_file (snd p)"
  shows "sort_keys lower (map h es) =
     (case sort_keys lower es of
        Inl e \<Rightarrow> Inl e
      | Inr keyed \<Rightarrow> Inr (map (\<lambda>kp. (fst kp, h (snd kp))) keyed))"
  by (induction es) (simp_all add: assms split: sum.splits)

lemma insort_key_map_commute:
  "(\<And>x. f (g x) = f x) \<Longrightarrow> insort_key f (g x) (map g xs) = map g (insort_key f x xs)"
  by (induction xs) auto

lemma sort_key_map_commute:
  "(\<And>x. f (g x) = f x) \<Longrightarrow> sort_key f (map g xs) = map g (sort_key f xs)"
  by (induction xs) (simp_all add: insort_key_map_commute)

lemma sort_entries_map:
  assumes "\<And>p. fst (h p) = fst p \<and> is_file (snd (h p)) = is_file (snd p)"
  shows "sort_entries lower (map h es) =
     (case sort_entries lower es of Inl e \<Rightarrow> Inl e | Inr s \<Rightarrow> Inr (map h s))"
proof (cases "sort_keys lower es")
  case (Inl e)
  then show ?thesis using sort_keys_map [of h lower es, OF assms] by (simp add: sort_entries_def)
next
  case (Inr keyed)
  have "sort_key fst (map (\<lambda>kp. (fst kp, h (snd kp))) keyed)
      = map (\<lambda>kp. (fst kp, h (snd kp))) (sort_key fst keyed)"
    by (rule sort_key_map_commute) simp
  then show ?thesis
    using Inr sort_keys_map [of h lower es, OF assms]
    by (simp add: sort_entries_def comp_def)
qed

lemma filter_entries_names:
  assumes "filter_entries fnm rel xd xg es = Inr f"
  shows "\<forall>p \<in> set f. fst p \<notin> xd"
proof
  fix p assume "p \<in> set f"
  then obtain d where "should_skip fnm (rel @ [fst p]) d xd xg = Inr False"
    using filter_entries_kept [OF assms] by blast
  then have "set (rel @ [fst p]) \<inter> xd = {}" by (rule should_skip_False)
  then show "fst p \<notin> xd" by simp
qed

lemma walk_emit_sim:
  fixes t :: "int \<Rightarrow> fsnode \<Rightarrow> fsnode" and h :: "int \<Rightarrow> pystr \<times> fsnode \<Rightarrow> pystr \<times> fsnode"
  assumes kind: "\<And>d p. fst (h d p) = fst p \<and> is_dir (snd (h d p)) = is_dir (snd p)
        \<and> is_file (snd (h d p)) = is_file (snd p)"
    and child: "\<And>d p. fst p \<notin> xd \<Longrightarrow> snd (h d p) = t (d + 1) (snd p)"
    and list: "\<And>d n. d < md \<Longrightarrow> iterdir (t d n)
        = (case iterdir n of Inl e \<Rightarrow> Inl e | Inr es \<Rightarrow> Inr (map (h d) es))"
  shows "texts (walk fnm lower md xd xg (t depth node) rel prefix depth)
           = texts (walk fnm lower md xd xg node rel prefix depth)"
    and "\<forall>p \<in> set es. fst p \<notin> xd \<Longrightarrow>
         texts (emit fnm lower md xd xg (map (h depth) es) rel prefix depth)
           = texts (emit fnm lower md xd xg es rel prefix depth)"
  using assms
proof (induction fnm lower md xd xg node rel prefix depth
    and fnm lower md xd xg es rel prefix depth rule: walk_emit.induct)
  case (1 fnm lower md xd xg node rel prefix depth)
  note kind = "1.prems"(1) and child = "1.prems"(2) and list = "1.prems"(3)
  show ?case
  proof (cases "md \<le> depth")
    case True
    then show ?thesis by (simp only: texts_walk if_True)
  next
    case False
    then have lt: "depth < md" by simp
    have it: "iterdir (t depth node)
        = (case iterdir node of Inl e \<Rightarrow> Inl e | Inr es \<Rightarrow> Inr (map (h depth) es))"
      by (rule list [OF lt])
    show ?thesis
    proof (cases "iterdir node")
      case (Inl e)
      then show ?thesis using it False by (simp only: texts_walk if_False sum.case)
    next
      case entries: (Inr entries)
      have fm: "filter_entries fnm rel xd xg (map (h depth) entries) =
          (case filter_entries fnm rel xd xg entries of
             Inl e \<Rightarrow> Inl e | Inr f \<Rightarrow> Inr (map (h depth) f))"
        by (rule filter_entries_map) (simp add: kind)
      show ?thesis
      proof (cases "filter_entries fnm rel xd xg entries")
        case (Inl e)
        then show ?thesis using it False entries fm
          by (simp only: texts_walk if_False sum.case)
      next
        case filtered: (Inr filtered)
        have sm: "sort_entries lower (map (h depth) filtered) =
            (case sort_entries lower filtered of
               Inl e \<Rightarrow> Inl e | Inr s \<Rightarrow> Inr (map (h depth) s))"
          by (rule sort_entries_map) (simp add: kind)
        show ?thesis
        proof (cases "sort_entries lower filtered")
          case (Inl e)
          then show ?thesis using it False entries fm filtered sm
            by (simp only: texts_walk if_False sum.case)
        next
          case s: (Inr s)
          have "\<forall>p \<in> set s. fst p \<notin> xd"
            using filter_entries_names [OF filtered] set_sort_entries [OF s] by simp
          then have "texts (emit fnm lower md xd xg (map (h depth) s) rel prefix depth)
              = texts (emit fnm lower md xd xg s rel prefix depth)"
            by (rule "1.IH" [OF False entries filtered s _ kind child list])
          then show ?thesis using it False entries fm filtered sm s
            by (simp only: texts_walk if_False sum.case)
        qed
      qed
    qed
  qed
next
  case (2 fnm lower md xd xg rel prefix depth)
  show ?case by simp
next
  case (3 fnm lower md xd xg p rest rel prefix depth)
  note kind = "3.prems"(2) and child = "3.prems"(3) and list = "3.prems"(4)
  have fs: "fst (h depth p) = fst p" and dir: "is_dir (snd (h depth p)) = is_dir (snd p)"
    by (simp_all add: kind)
  have nx: "fst p \<notin> xd" using "3.prems"(1) by simp
  have ch: "snd (h depth p) = t (depth + 1) (snd p)" by (rule child [OF nx])
  have last: "(map (h depth) rest = []) = (rest = [])" by simp
  show ?case
  proof (cases "is_dir (snd p)")
    case (Inl e)
    then show ?thesis using dir by (simp only: list.map texts_emit_Cons sum.case)
  next
    case d: (Inr d)
    define ext where "ext = prefix @ (if rest = [] then ascii ''    '' else BAR)"
    define inner where "inner = (if d then walk fnm lower md xd xg (snd p) (rel @ [fst p])
        ext (depth + 1) else Inr [])"
    define inner' where "inner' = (if d then walk fnm lower md xd xg (t (depth + 1) (snd p))
        (rel @ [fst p]) ext (depth + 1) else Inr [])"
    have i: "texts inner' = texts inner"
    proof (cases d)
      case True
      have "texts (walk fnm lower md xd xg (t (depth + 1) (snd p)) (rel @ [fst p])
                (prefix @ (if rest = [] then ascii ''    '' else BAR)) (depth + 1))
          = texts (walk fnm lower md xd xg (snd p) (rel @ [fst p])
                (prefix @ (if rest = [] then ascii ''    '' else BAR)) (depth + 1))"
        by (rule "3.IH"(1) [OF d True kind child list])
      then show ?thesis using True by (simp only: inner_def inner'_def ext_def if_True)
    next
      case False
      then show ?thesis by (simp only: inner_def inner'_def if_False)
    qed
    have l: "texts (emit fnm lower md xd xg (p # rest) rel prefix depth) =
        (case texts inner of
           Inl e \<Rightarrow> Inl e
         | Inr inner \<Rightarrow>
             (case texts (emit fnm lower md xd xg rest rel prefix depth) of
                Inl e \<Rightarrow> Inl e
              | Inr more \<Rightarrow> Inr (entry_line prefix (rest = []) (fst p) d # inner @ more)))"
      using d by (simp only: texts_emit_Cons sum.case inner_def ext_def)
    have r: "texts (emit fnm lower md xd xg (map (h depth) (p # rest)) rel prefix depth) =
        (case texts inner' of
           Inl e \<Rightarrow> Inl e
         | Inr inner \<Rightarrow>
             (case texts (emit fnm lower md xd xg (map (h depth) rest) rel prefix depth) of
                Inl e \<Rightarrow> Inl e
              | Inr more \<Rightarrow> Inr (entry_line prefix (rest = []) (fst p) d # inner @ more)))"
      using d dir
      by (simp only: list.map texts_emit_Cons sum.case inner'_def ext_def fs ch last)
    show ?thesis
    proof (cases inner)
      case (Inl e)
      then have "texts inner = Inl e" by (simp add: texts_def)
      then show ?thesis using i by (simp only: l r sum.case)
    next
      case (Inr out)
      have b: "(if d then walk fnm lower md xd xg (snd p) (rel @ [fst p])
                  (prefix @ (if rest = [] then ascii ''    '' else BAR)) (depth + 1)
                else Inr []) = Inr out"
        using Inr by (simp only: inner_def ext_def)
      have nr: "\<forall>p \<in> set rest. fst p \<notin> xd" using "3.prems"(1) by simp
      have "texts (emit fnm lower md xd xg (map (h depth) rest) rel prefix depth)
          = texts (emit fnm lower md xd xg rest rel prefix depth)"
        by (rule "3.IH"(2) [OF d b nr kind child list])
      then show ?thesis using i by (simp only: l r)
    qed
  qed
qed

lemma is_dir_emptied: "is_dir (emptied n) = is_dir n"
  by (cases n) (simp_all add: emptied_def)

lemma is_file_emptied: "is_file (emptied n) = is_file n"
  by (cases n) (simp_all add: emptied_def)

lemma is_dir_hollow: "is_dir (hollow X n) = is_dir n"
  by (cases n) simp_all

lemma is_file_hollow: "is_file (hollow X n) = is_file n"
  by (cases n) simp_all

lemma hollow_entries_map:
  "hollow_entries X es
     = map (\<lambda>p. (fst p, if fst p \<in> X then emptied (snd p) else hollow X (snd p))) es"
  by (induction es) simp_all

lemma is_dir_cut: "is_dir (cut k n) = is_dir n"
  by (cases k; cases n) (simp_all add: emptied_def)

lemma is_file_cut: "is_file (cut k n) = is_file n"
  by (cases k; cases n) (simp_all add: emptied_def)

lemma walk_hollow:
  "texts (walk fnm lower md xd xg (hollow xd node) rel prefix depth)
     = texts (walk fnm lower md xd xg node rel prefix depth)"
proof (rule walk_emit_sim(1)
    [where t = "\<lambda>d. hollow xd"
       and h = "\<lambda>d p. (fst p, if fst p \<in> xd then emptied (snd p) else hollow xd (snd p))"])
  fix d :: int and p :: "pystr \<times> fsnode"
  show "fst (fst p, if fst p \<in> xd then emptied (snd p) else hollow xd (snd p)) = fst p \<and>
        is_dir (snd (fst p, if fst p \<in> xd then emptied (snd p) else hollow xd (snd p)))
          = is_dir (snd p) \<and>
        is_file (snd (fst p, if fst p \<in> xd then emptied (snd p) else hollow xd (snd p)))
          = is_file (snd p)"
    by (simp add: is_dir_emptied is_file_emptied is_dir_hollow is_file_hollow)
next
  fix d :: int and p :: "pystr \<times> fsnode"
  assume "fst p \<notin> xd"
  then show "snd (fst p, if fst p \<in> xd then emptied (snd p) else hollow xd (snd p))
      = hollow xd (snd p)"
    by simp
next
  fix d :: int and n
  show "iterdir (hollow xd n) =
      (case iterdir n of
         Inl e \<Rightarrow> Inl e
       | Inr es \<Rightarrow> Inr (map (\<lambda>p. (fst p, if fst p \<in> xd then emptied (snd p)
                                         else hollow xd (snd p))) es))"
    by (cases n) (simp_all add: hollow_entries_map)
qed

lemma walk_cut:
  "texts (walk fnm lower md xd xg (cut (nat (md - depth)) node) rel prefix depth)
     = texts (walk fnm lower md xd xg node rel prefix depth)"
proof (rule walk_emit_sim(1)
    [where t = "\<lambda>d. cut (nat (md - d))"
       and h = "\<lambda>d p. (fst p, cut (nat (md - (d + 1))) (snd p))"])
  fix d :: int and p :: "pystr \<times> fsnode"
  show "fst (fst p, cut (nat (md - (d + 1))) (snd p)) = fst p \<and>
        is_dir (snd (fst p, cut (nat (md - (d + 1))) (snd p))) = is_dir (snd p) \<and>
        is_file (snd (fst p, cut (nat (md - (d + 1))) (snd p))) = is_file (snd p)"
    by (simp add: is_dir_cut is_file_cut)
next
  fix d :: int and p :: "pystr \<times> fsnode"
  show "snd (fst p, cut (nat (md - (d + 1))) (snd p)) = cut (nat (md - (d + 1))) (snd p)"
    by simp
next
  fix d :: int and n
  assume "d < md"
  then have "nat (md - d) = Suc (nat (md - (d + 1)))" by simp
  then show "iterdir (cut (nat (md - d)) n) =
      (case iterdir n of
         Inl e \<Rightarrow> Inl e
       | Inr es \<Rightarrow> Inr (map (\<lambda>p. (fst p, cut (nat (md - (d + 1))) (snd p))) es))"
    by (cases n) simp_all
qed

lemma build_tree_lines_hollow:
  "build_tree_lines fnm lower label (hollow xd root) md xd xg
     = build_tree_lines fnm lower label root md xd xg"
  by (simp only: build_tree_lines_texts walk_hollow)

lemma build_tree_lines_cut:
  "build_tree_lines fnm lower label (cut (nat md) root) md xd xg
     = build_tree_lines fnm lower label root md xd xg"
  using walk_cut [of fnm lower md xd xg 0 root "[]" "[]"]
  by (simp only: build_tree_lines_texts diff_zero)

text \<open>
  Claim C7: the filter answers true whenever a segment of the relative path is an excluded
  name, for files and directories alike. So the traversal never descends into a directory
  with an excluded name: \<open>build_tree_lines\<close> returns the same (the same lines, or the
  same exception) when every such directory, at every depth, is replaced by an empty
  one. And when it returns, its output is the root line followed by the texts of the
  lines of the walk, each text is the rendering of its entry, and no rendered entry has
  an excluded name among the segments of its path: a directory with an excluded name is
  absent from the output at every depth, and so is everything beneath it.
\<close>

theorem excluded_names_absent:
  "(\<forall>rel d. (\<exists>part \<in> set rel. part \<in> exclude_dirs)
       \<longrightarrow> should_skip fnmatchcase rel d exclude_dirs exclude_globs = Inr True) \<and>
   build_tree_lines fnmatchcase lower label (hollow exclude_dirs root) max_depth
       exclude_dirs exclude_globs
     = build_tree_lines fnmatchcase lower label root max_depth exclude_dirs exclude_globs \<and>
   (\<forall>lines. build_tree_lines fnmatchcase lower label root max_depth exclude_dirs exclude_globs
               = Inr lines
       \<longrightarrow> (\<exists>out. walk fnmatchcase lower max_depth exclude_dirs exclude_globs root [] [] 0 = Inr out
               \<and> lines = label # map snd out
               \<and> (\<forall>line \<in> set out. shown 0 0 line)
               \<and> (\<forall>q \<in> entry_paths out. set q \<inter> exclude_dirs = {})))"
proof (intro conjI allI impI)
  fix rel d
  assume "\<exists>part \<in> set rel. part \<in> exclude_dirs"
  then show "should_skip fnmatchcase rel d exclude_dirs exclude_globs = Inr True"
    by (rule should_skip_excluded)
next
  show "build_tree_lines fnmatchcase lower label (hollow exclude_dirs root) max_depth
       exclude_dirs exclude_globs
     = build_tree_lines fnmatchcase lower label root max_depth exclude_dirs exclude_globs"
    by (rule build_tree_lines_hollow)
next
  fix lines
  assume "build_tree_lines fnmatchcase lower label root max_depth exclude_dirs exclude_globs
      = Inr lines"
  then obtain out where
    "walk fnmatchcase lower max_depth exclude_dirs exclude_globs root [] [] 0 = Inr out"
    "lines = label # map snd out" "\<forall>line \<in> set out. shown 0 0 line"
    "\<forall>q \<in> entry_paths out. set q \<inter> exclude_dirs = {} \<and> int (length q) \<le> max_depth"
    using build_tree_lines_labelled by blast
  then show "\<exists>out. walk fnmatchcase lower max_depth exclude_dirs exclude_globs root [] [] 0 = Inr out
               \<and> lines = label # map snd out
               \<and> (\<forall>line \<in> set out. shown 0 0 line)
               \<and> (\<forall>q \<in> entry_paths out. set q \<inter> exclude_dirs = {})"
    by blast
qed

theorem excluded_names_absent_witness:
  "should_skip wildcard_match [ascii ''src'', ascii ''node_modules'', ascii ''x.js''] False
     {ascii ''node_modules''} [] = Inr True \<and>
   build_tree_lines wildcard_match ascii_lower (ascii ''/repo'') nested_dir 6
     {ascii ''node_modules''} []
     = Inr [ascii ''/repo'', CORNER @ ascii ''src/'', ascii ''    '' @ CORNER @ ascii ''a.py''] \<and>
   hollow {ascii ''node_modules''} nested_dir
     = Dir [(ascii ''src'', Dir [(ascii ''node_modules'', Dir []), (ascii ''a.py'', File)]),
            (ascii ''node_modules'', Dir [])] \<and>
   build_tree_lines wildcard_match ascii_lower (ascii ''/repo'')
     (Dir [(ascii ''src'', Dir [(ascii ''node_modules'', Dir []), (ascii ''a.py'', File)]),
           (ascii ''node_modules'', Dir [])]) 6 {ascii ''node_modules''} []
     = Inr [ascii ''/repo'', CORNER @ ascii ''src/'', ascii ''    '' @ CORNER @ ascii ''a.py''] \<and>
   walk wildcard_match ascii_lower 6 {ascii ''node_modules''} [] nested_dir [] [] 0
     = Inr nested_out \<and>
   ascii ''node_modules'' \<notin> \<Union> (set ` entry_paths nested_out)"
proof -
  note inst = excluded_names_absent [where exclude_dirs = "{ascii ''node_modules''}"
      and fnmatchcase = wildcard_match and exclude_globs = "[]" and lower = ascii_lower
      and label = "ascii ''/repo''" and root = nested_dir and max_depth = 6]
  have b: "build_tree_lines wildcard_match ascii_lower (ascii ''/repo'') nested_dir 6
     {ascii ''node_modules''} []
     = Inr [ascii ''/repo'', CORNER @ ascii ''src/'', ascii ''    '' @ CORNER @ ascii ''a.py'']"
    by (simp add: build_tree_lines_def nested_walk del: walk.simps) (simp add: nested_out_def)
  have sk: "should_skip wildcard_match [ascii ''src'', ascii ''node_modules'', ascii ''x.js'']
      False {ascii ''node_modules''} [] = Inr True"
    using inst [THEN conjunct1, THEN spec, THEN spec,
        of "[ascii ''src'', ascii ''node_modules'', ascii ''x.js'']" False]
    by simp
  have h: "hollow {ascii ''node_modules''} nested_dir
     = Dir [(ascii ''src'', Dir [(ascii ''node_modules'', Dir []), (ascii ''a.py'', File)]),
            (ascii ''node_modules'', Dir [])]"
    by (simp add: nested_dir_def emptied_def ascii_def)
  have hb: "build_tree_lines wildcard_match ascii_lower (ascii ''/repo'')
     (Dir [(ascii ''src'', Dir [(ascii ''node_modules'', Dir []), (ascii ''a.py'', File)]),
           (ascii ''node_modules'', Dir [])]) 6 {ascii ''node_modules''} []
     = Inr [ascii ''/repo'', CORNER @ ascii ''src/'', ascii ''    '' @ CORNER @ ascii ''a.py'']"
    using inst [THEN conjunct2, THEN conjunct1] by (simp only: h b)
  obtain out where w: "walk wildcard_match ascii_lower 6 {ascii ''node_modules''} [] nested_dir
      [] [] 0 = Inr out"
    and p: "\<forall>q \<in> entry_paths out. set q \<inter> {ascii ''node_modules''} = {}"
    using inst [THEN conjunct2, THEN conjunct2] b by blast
  have "out = nested_out" using w by (simp only: nested_walk sum.inject)
  then have "ascii ''node_modules'' \<notin> \<Union> (set ` entry_paths nested_out)" using p by auto
  then show ?thesis using sk b h hb nested_walk by (intro conjI)
qed

text \<open>
  Claim C8: \<open>walk\<close> returns at once when \<open>depth \<ge> max_depth\<close>, where depth 0 is the level
  of the direct children of the root. So with \<open>max_depth \<le> 0\<close> the output of
  \<open>build_tree_lines\<close> is the root line alone; for every \<open>max_depth\<close> it returns the
  same when every directory \<open>max_depth\<close> levels below the root is replaced by an empty
  one, and when it returns, its output is the root line followed by the texts of the
  lines of the walk, each text is the rendering of its entry, and every rendered entry
  lies at most \<open>max_depth\<close> levels below the root. With \<open>max_depth = 1\<close> the output is
  the root line followed by one line for each surviving direct child of the root, in
  sorted order, and nothing else: no grandchild of the root is rendered. (When the root
  cannot be listed the output is the root line and the placeholder line; an exception of
  the listing or of the filter is passed on.)
\<close>

theorem depth_bound:
  "(\<forall>dir_path rel prefix depth. max_depth \<le> depth
       \<longrightarrow> walk fnmatchcase lower max_depth exclude_dirs exclude_globs dir_path rel prefix depth
             = Inr []) \<and>
   (max_depth \<le> 0
       \<longrightarrow> build_tree_lines fnmatchcase lower label root max_depth exclude_dirs exclude_globs
             = Inr [label]) \<and>
   build_tree_lines fnmatchcase lower label (cut (nat max_depth) root) max_depth
       exclude_dirs exclude_globs
     = build_tree_lines fnmatchcase lower label root max_depth exclude_dirs exclude_globs \<and>
   (\<forall>lines. build_tree_lines fnmatchcase lower label root max_depth exclude_dirs exclude_globs
               = Inr lines
       \<longrightarrow> (\<exists>out. walk fnmatchcase lower max_depth exclude_dirs exclude_globs root [] [] 0 = Inr out
               \<and> lines = label # map snd out
               \<and> (\<forall>line \<in> set out. shown 0 0 line)
               \<and> (\<forall>q \<in> entry_paths out. int (length q) \<le> max_depth))) \<and>
   build_tree_lines fnmatchcase lower label root 1 exclude_dirs exclude_globs =
     (case iterdir root of
        Inl e \<Rightarrow>
          if e = PermissionError then Inr [label, CORNER @ ascii ''[permission denied]'']
          else Inl e
      | Inr entries \<Rightarrow>
          (case filter_entries fnmatchcase [] exclude_dirs exclude_globs entries of
             Inl e \<Rightarrow> Inl e
           | Inr filtered \<Rightarrow>
               Inr (label # map snd (level_lines [] [] (sort_key (sort_key_of lower) filtered)))))"
proof (intro conjI allI impI)
  fix dir_path rel prefix depth
  assume "max_depth \<le> depth"
  then show "walk fnmatchcase lower max_depth exclude_dirs exclude_globs dir_path rel prefix depth
      = Inr []"
    by (rule walk_stops)
next
  assume "max_depth \<le> 0"
  then show "build_tree_lines fnmatchcase lower label root max_depth exclude_dirs exclude_globs
      = Inr [label]"
    by (simp add: build_tree_lines_def)
next
  show "build_tree_lines fnmatchcase lower label (cut (nat max_depth) root) max_depth
       exclude_dirs exclude_globs
     = build_tree_lines fnmatchcase lower label root max_depth exclude_dirs exclude_globs"
    by (rule build_tree_lines_cut)
next
  fix lines
  assume "build_tree_lines fnmatchcase lower label root max_depth exclude_dirs exclude_globs
      = Inr lines"
  then obtain out where
    "walk fnmatchcase lower max_depth exclude_dirs exclude_globs root [] [] 0 = Inr out"
    "lines = label # map snd out" "\<forall>line \<in> set out. shown 0 0 line"
    "\<forall>q \<in> entry_paths out. set q \<inter> exclude_dirs = {} \<and> int (length q) \<le> max_depth"
    using build_tree_lines_labelled by blast
  then show "\<exists>out. walk fnmatchcase lower max_depth exclude_dirs exclude_globs root [] [] 0 = Inr out
               \<and> lines = label # map snd out
               \<and> (\<forall>line \<in> set out. shown 0 0 line)
               \<and> (\<forall>q \<in> entry_paths out. int (length q) \<le> max_depth)"
    by blast
next
  show "build_tree_lines fnmatchcase lower label root 1 exclude_dirs exclude_globs =
     (case iterdir root of
        Inl e \<Rightarrow>
          if e = PermissionError then Inr [label, CORNER @ ascii ''[permission denied]'']
          else Inl e
      | Inr entries \<Rightarrow>
          (case filter_entries fnmatchcase [] exclude_dirs exclude_globs entries of
             Inl e \<Rightarrow> Inl e
           | Inr filtered \<Rightarrow>
               Inr (label # map snd (level_lines [] [] (sort_key (sort_key_of lower) filtered)))))"
    by (rule build_tree_lines_depth_one)
qed

theorem depth_bound_witness:
  "build_tree_lines wildcard_match ascii_lower (ascii ''/repo'') example_dir 0 {} []
     = Inr [ascii ''/repo''] \<and>
   build_tree_lines wildcard_match ascii_lower (ascii ''/repo'') example_dir 1 {} []
     = Inr [ascii ''/repo'', BRANCH @ ascii ''a/'', BRANCH @ ascii ''Z/'',
            BRANCH @ ascii ''a.txt'', CORNER @ ascii ''B.txt''] \<and>
   cut 1 example_dir
     = Dir [(ascii ''B.txt'', File), (ascii ''a'', Dir []), (ascii ''Z'', Dir []),
            (ascii ''a.txt'', File)] \<and>
   build_tree_lines wildcard_match ascii_lower (ascii ''/repo'')
     (Dir [(ascii ''B.txt'', File), (ascii ''a'', Dir []), (ascii ''Z'', Dir []),
           (ascii ''a.txt'', File)]) 1 {} []
     = Inr [ascii ''/repo'', BRANCH @ ascii ''a/'', BRANCH @ ascii ''Z/'',
            BRANCH @ ascii ''a.txt'', CORNER @ ascii ''B.txt''] \<and>
   walk wildcard_match ascii_lower 1 {} []
     (Dir [(ascii ''z.py'', File), (ascii ''Y'', Dir [])]) [ascii ''a''] BAR 1 = Inr []"
proof -
  note zero = depth_bound [where max_depth = 0 and fnmatchcase = wildcard_match
      and lower = ascii_lower and exclude_dirs = "{}" and exclude_globs = "[]"
      and label = "ascii ''/repo''" and root = example_dir]
  note one = depth_bound [where max_depth = 1 and fnmatchcase = wildcard_match
      and lower = ascii_lower and exclude_dirs = "{}" and exclude_globs = "[]"
      and label = "ascii ''/repo''" and root = example_dir]
  have a: "build_tree_lines wildcard_match ascii_lower (ascii ''/repo'') example_dir 0 {} []
     = Inr [ascii ''/repo'']"
    using zero [THEN conjunct2, THEN conjunct1] by simp
  have f: "filter_entries wildcard_match [] {} []
      [(ascii ''B.txt'', File),
       (ascii ''a'', Dir [(ascii ''z.py'', File), (ascii ''Y'', Dir [])]),
       (ascii ''Z'', Dir []),
       (ascii ''a.txt'', File)]
      = Inr [(ascii ''B.txt'', File),
       (ascii ''a'', Dir [(ascii ''z.py'', File), (ascii ''Y'', Dir [])]),
       (ascii ''Z'', Dir []),
       (ascii ''a.txt'', File)]"
    by (rule filter_entries_no_rules) auto
  have s: "sort_key (sort_key_of ascii_lower)
      [(ascii ''B.txt'', File),
       (ascii ''a'', Dir [(ascii ''z.py'', File), (ascii ''Y'', Dir [])]),
       (ascii ''Z'', Dir []),
       (ascii ''a.txt'', File)]
      = [(ascii ''a'', Dir [(ascii ''z.py'', File), (ascii ''Y'', Dir [])]),
         (ascii ''Z'', Dir []), (ascii ''a.txt'', File), (ascii ''B.txt'', File)]"
    by (simp add: sort_key_of_def regular_def ascii_lower_def ascii_def less_eq_prod_def)
  have "build_tree_lines wildcard_match ascii_lower (ascii ''/repo'') example_dir 1 {} [] =
     (case iterdir example_dir of
        Inl e \<Rightarrow>
          if e = PermissionError then Inr [ascii ''/repo'', CORNER @ ascii ''[permission denied]'']
          else Inl e
      | Inr entries \<Rightarrow>
          (case filter_entries wildcard_match [] {} [] entries of
             Inl e \<Rightarrow> Inl e
           | Inr filtered \<Rightarrow>
               Inr (ascii ''/repo'' #
                 map snd (level_lines [] [] (sort_key (sort_key_of ascii_lower) filtered)))))"
    by (rule one [THEN conjunct2, THEN conjunct2, THEN conjunct2, THEN conjunct2])
  then have b: "build_tree_lines wildcard_match ascii_lower (ascii ''/repo'') example_dir 1 {} []
     = Inr [ascii ''/repo'', BRANCH @ ascii ''a/'', BRANCH @ ascii ''Z/'',
            BRANCH @ ascii ''a.txt'', CORNER @ ascii ''B.txt'']"
    by (simp only: example_dir_def iterdir.simps f s sum.case)
       (simp add: directory_def entry_line_def ascii_def SLASH_def)
  have k: "cut 1 example_dir
     = Dir [(ascii ''B.txt'', File), (ascii ''a'', Dir []), (ascii ''Z'', Dir []),
            (ascii ''a.txt'', File)]"
    by (simp add: example_dir_def emptied_def)
  have kb: "build_tree_lines wildcard_match ascii_lower (ascii ''/repo'')
     (Dir [(ascii ''B.txt'', File), (ascii ''a'', Dir []), (ascii ''Z'', Dir []),
           (ascii ''a.txt'', File)]) 1 {} []
     = Inr [ascii ''/repo'', BRANCH @ ascii ''a/'', BRANCH @ ascii ''Z/'',
            BRANCH @ ascii ''a.txt'', CORNER @ ascii ''B.txt'']"
  proof -
    have n: "nat (1::int) = 1" by simp
    show ?thesis
      using one [THEN conjunct2, THEN conjunct2, THEN conjunct1] by (simp only: n k b)
  qed
  have c: "walk wildcard_match ascii_lower 1 {} []
     (Dir [(ascii ''z.py'', File), (ascii ''Y'', Dir [])]) [ascii ''a''] BAR 1 = Inr []"
    using one [THEN conjunct1, THEN spec, THEN spec, THEN spec, THEN spec,
        of 1 "Dir [(ascii ''z.py'', File), (ascii ''Y'', Dir [])]" "[ascii ''a'']" BAR]
    by (simp del: walk.simps)
  show ?thesis using a b k kb c by (intro conjI)
qed

end
